theory Spec2Isabelle
  imports Complex_Main "HOL-Library.Multiset"
begin

section \<open>LDPT route planner: data model\<close>

text \<open>
  JavaScript numbers are idealised as reals (no rounding error, no NaN in the inputs);
  where the source can divide by zero the non-finite results are modelled explicitly.
  Store identifiers are the trimmed, non-empty strings built by \<open>getShipments\<close>.
  Strings are lists of 8-bit characters; code units above 255 are outside the model.
\<close>

type_synonym store = string

datatype category = Ambient | Chiller | Freezer | Produce | OtherCategory

datatype failure = TimeConstraint | NoViableCarrier

record shipment =
  store :: store
  category :: category
  pallets :: real
  productTypeId :: "string option"
  cluster :: string
  attempts :: nat
  insertionFailures :: nat
  failureReason :: "failure option"

record leg =
  distance :: real
  duration :: real

type_synonym distanceMatrix = "store \<Rightarrow> store \<Rightarrow> leg option"

record pdur =
  loading :: real
  unloading :: real

record restriction =
  noise :: string
  equipmentNight :: string
  equipmentDay :: string
  deliveryWindow :: string

record timeSlot =
  slotTime :: string
  capacity :: nat
  used :: nat

record carrier =
  name :: string
  costPerMile :: real
  costPerRoute :: real
  pallets36 :: real
  pallets48 :: real
  pallets53 :: real
  timeSlots :: "timeSlot list"

record route =
  carrier :: carrier
  time :: string
  stops :: "shipment list"
  totalPallets :: real
  routeCluster :: string
  routeId :: string
  routeNotes :: string
  seedAttempts :: nat

record planningContext =
  restrictions :: "store \<Rightarrow> restriction option"
  detailedDurations :: "store \<Rightarrow> string option \<Rightarrow> pdur option"
  distanceMatrix :: distanceMatrix
  warehouse :: store
  OVERPLAN_FACTOR :: real
  MAX_ROUTE_MILEAGE :: real
  MAX_STOPS_GENERAL :: nat
  MAX_DISTANCE_BETWEEN_STOPS :: real
  ABSOLUTE_MAX_DISTANCE_BETWEEN_STOPS :: real
  ALLOW_ALL_ALL :: bool
  SMALL_AMBIENT_THRESHOLD :: real
  MIN_PALLETS_PER_ROUTE :: real
  MAX_PLANNING_ATTEMPTS :: nat
  RELAX_MIN_ATTEMPTS :: nat
  RELAX_MIN_FACTOR :: real
  CLUSTER_FAILURE_THRESHOLD :: nat

section \<open>JavaScript helpers\<close>

text \<open>\<open>a || b\<close> on numbers: zero is falsy.\<close>

definition num_or :: "real \<Rightarrow> real \<Rightarrow> real" where
  "num_or a b = (if a = 0 then b else a)"

text \<open>\<open>Math.round\<close>: nearest integer, halves rounded up.\<close>

definition js_round :: "real \<Rightarrow> real" where
  "js_round x = of_int \<lfloor>x + 1 / 2\<rfloor>"

text \<open>\<open>[...new Set(xs)]\<close>: distinct elements in order of first occurrence.\<close>

definition uniq :: "'a list \<Rightarrow> 'a list" where
  "uniq xs = rev (remdups (rev xs))"

definition uniqueStores :: "shipment list \<Rightarrow> store list" where
  "uniqueStores ss = uniq (map store ss)"

definition is_digit :: "char \<Rightarrow> bool" where
  "is_digit c = (48 \<le> (of_char c :: int) \<and> (of_char c :: int) \<le> 57)"

definition digit_val :: "char \<Rightarrow> int" where
  "digit_val c = of_char c - 48"

definition dec :: "string \<Rightarrow> int" where
  "dec s = foldl (\<lambda>n c. 10 * n + digit_val c) 0 s"

text \<open>
  White space as \<open>String.prototype.trim\<close> and the white-space class of regular expressions
  see it, among the code units that a character of the model holds (those below 256): tab,
  line feed, vertical tab, form feed, carriage return, space and no-break space.
\<close>

definition is_ws :: "char \<Rightarrow> bool" where
  "is_ws c = ((of_char c :: nat) \<in> {9, 10, 11, 12, 13, 32, 160})"

definition trim :: "string \<Rightarrow> string" where
  "trim s = rev (dropWhile is_ws (rev (dropWhile is_ws s)))"

text \<open>
  \<open>toUpperCase\<close> on the letters a to z. Its results are only compared with the strings N/A, AM
  and PM, into which no other character of the model is upper-cased.
\<close>

definition upper_char :: "char \<Rightarrow> char" where
  "upper_char c = (if 97 \<le> (of_char c :: nat) \<and> (of_char c :: nat) \<le> 122
                   then char_of ((of_char c :: nat) - 32) else c)"

definition toUpperCase :: "string \<Rightarrow> string" where
  "toUpperCase s = map upper_char s"

fun split_on :: "char \<Rightarrow> string \<Rightarrow> string list" where
  "split_on c [] = [[]]"
| "split_on c (x # xs) =
     (if x = c then [] # split_on c xs
      else (case split_on c xs of [] \<Rightarrow> [[x]] | p # ps \<Rightarrow> (x # p) # ps))"

fun is_prefix :: "string \<Rightarrow> string \<Rightarrow> bool" where
  "is_prefix [] ys = True"
| "is_prefix (x # xs) [] = False"
| "is_prefix (x # xs) (y # ys) = (x = y \<and> is_prefix xs ys)"

text \<open>\<open>s.includes(p)\<close>.\<close>

fun str_includes :: "string \<Rightarrow> string \<Rightarrow> bool" where
  "str_includes [] p = (p = [])"
| "str_includes (x # xs) p = (is_prefix p (x # xs) \<or> str_includes xs p)"

text \<open>
  Own-property enumeration order of a JavaScript object (\<open>for (k in obj)\<close>): array-index
  keys (canonical decimal strings below \<open>2^32 - 1\<close>) in ascending numeric order, then the
  other string keys in insertion order.
\<close>

definition isArrayIndex :: "string \<Rightarrow> bool" where
  "isArrayIndex s = (s \<noteq> [] \<and> list_all is_digit s \<and> (s = ''0'' \<or> hd s \<noteq> CHR ''0'')
                     \<and> dec s < 4294967295)"

definition js_keys :: "string list \<Rightarrow> string list" where
  "js_keys ks = sort_key dec (filter isArrayIndex ks) @ filter (\<lambda>k. \<not> isArrayIndex k) ks"

section \<open>Time windows and trailer size\<close>

definition parseTimeToMinutes :: "string \<Rightarrow> int option" where
  "parseTimeToMinutes timeStr =
     (if timeStr = [] then None
      else (case split_on CHR '':'' timeStr of
              [h, m] \<Rightarrow>
                (if (length h = 1 \<or> length h = 2) \<and> list_all is_digit h
                     \<and> length m = 2 \<and> list_all is_digit m
                 then Some (dec h * 60 + dec m) else None)
            | _ \<Rightarrow>
                (let n = length timeStr;
                     h = take (n - 2) timeStr;
                     suffix = toUpperCase (drop (n - 2) timeStr)
                 in if n \<ge> 3 \<and> (length h = 1 \<or> length h = 2) \<and> list_all is_digit h
                        \<and> (suffix = ''AM'' \<or> suffix = ''PM'')
                    then (let hours = dec h;
                              hours' = (if hours = 12 then (if suffix = ''AM'' then 0 else 12)
                                        else if suffix = ''PM'' then hours + 12 else hours)
                          in Some (hours' * 60))
                    else None)))"

definition isTimeInWindow :: "string \<Rightarrow> string \<Rightarrow> bool" where
  "isTimeInWindow routeTimeStr windowStr =
     (if windowStr = [] \<or> toUpperCase (trim windowStr) = ''N/A'' \<or> trim windowStr = [] then True
      else (case split_on CHR ''-'' windowStr of
              [p0, p1] \<Rightarrow>
                (case (parseTimeToMinutes routeTimeStr, parseTimeToMinutes (trim p0),
                       parseTimeToMinutes (trim p1)) of
                   (Some routeTime, Some startTime, Some endTime) \<Rightarrow>
                     (if startTime \<le> endTime then routeTime \<ge> startTime \<and> routeTime \<le> endTime
                      else routeTime \<ge> startTime \<or> routeTime \<le> endTime)
                 | _ \<Rightarrow> True)
            | _ \<Rightarrow> True))"

datatype trailerSize = Size36 | Size48 | Size53

definition storeEquipment :: "string \<Rightarrow> (store \<Rightarrow> restriction option) \<Rightarrow> store \<Rightarrow> string" where
  "storeEquipment routeTime restr st =
     (case restr st of
        None \<Rightarrow> []
      | Some res \<Rightarrow>
          (let routeTimeMins = (case parseTimeToMinutes routeTime of None \<Rightarrow> 0 | Some m \<Rightarrow> m);
               isNight = (routeTimeMins \<ge> 1140 \<or> routeTimeMins < 360)
           in if isNight then equipmentNight res else equipmentDay res))"

definition getRequiredTrailerSize ::
  "string \<Rightarrow> shipment list \<Rightarrow> (store \<Rightarrow> restriction option) \<Rightarrow> trailerSize" where
  "getRequiredTrailerSize routeTime routeStops restr =
     (let eqs = map (storeEquipment routeTime restr) (uniqueStores routeStops);
          requires36 = list_ex (\<lambda>e. str_includes e ''36'') eqs;
          requires48 = list_ex (\<lambda>e. str_includes e ''48'') eqs
      in if requires36 then Size36 else if requires48 then Size48 else Size53)"

definition carrierCapacity :: "carrier \<Rightarrow> trailerSize \<Rightarrow> real" where
  "carrierCapacity c sz = (case sz of Size36 \<Rightarrow> pallets36 c | Size48 \<Rightarrow> pallets48 c
                                    | Size53 \<Rightarrow> pallets53 c)"

section \<open>Temperature compatibility\<close>

text \<open>
  \<open>perStoreCounts\<close> is the object built by the callers: for each store key the pallet total
  of each category (\<open>counts.X || 0\<close> reads an absent category as 0).
\<close>

definition storeCount :: "shipment list \<Rightarrow> store \<Rightarrow> category \<Rightarrow> real" where
  "storeCount ss st cat =
     sum_list (map pallets (filter (\<lambda>s. store s = st \<and> category s = cat) ss))"

definition perStoreCounts :: "shipment list \<Rightarrow> (store \<times> (category \<Rightarrow> real)) list" where
  "perStoreCounts ss = map (\<lambda>st. (st, storeCount ss st)) (uniqueStores ss)"

definition isTempCompatible ::
  "category set \<Rightarrow> bool \<Rightarrow> real \<Rightarrow> (store \<times> (category \<Rightarrow> real)) list option \<Rightarrow> bool" where
  "isTempCompatible requiredCategories allowAllAll smallAmbientThresholdOpt details =
     (let smallAmbientThreshold = num_or smallAmbientThresholdOpt 6;
          hasAmbient = (Ambient \<in> requiredCategories);
          hasProduce = (Produce \<in> requiredCategories);
          hasChiller = (Chiller \<in> requiredCategories);
          hasFreezer = (Freezer \<in> requiredCategories)
      in if hasFreezer then
           (if hasChiller then False
            else if hasAmbient \<or> hasProduce then False
            else True)
         else if allowAllAll then
           (case details of
              None \<Rightarrow> True
            | Some psc \<Rightarrow>
                list_all (\<lambda>(storeId, counts).
                   let hasStoreChiller = (counts Chiller > 0);
                       ambientTotal = counts Ambient + counts Produce
                   in \<not> (hasStoreChiller \<and> ambientTotal > smallAmbientThreshold)) psc)
         else \<not> (hasChiller \<and> hasFreezer))"

definition tempCheck :: "planningContext \<Rightarrow> shipment list \<Rightarrow> bool" where
  "tempCheck ctx ss =
     isTempCompatible (set (map category ss)) (ALLOW_ALL_ALL ctx)
       (num_or (SMALL_AMBIENT_THRESHOLD ctx) 4) (Some (perStoreCounts ss))"

section \<open>Leg distances and the distance penalty\<close>

record legDetails =
  legDistances :: "real list"
  hasMissingData :: bool

fun legLoop :: "distanceMatrix \<Rightarrow> store list \<Rightarrow> real list \<Rightarrow> legDetails" where
  "legLoop dm (from # to # rest) acc =
     (if from = [] \<or> to = [] then legLoop dm (to # rest) acc
      else (case (case dm from to of Some l \<Rightarrow> Some l | None \<Rightarrow> dm to from) of
              None \<Rightarrow> \<lparr>legDistances = [], hasMissingData = True\<rparr>
            | Some l \<Rightarrow> legLoop dm (to # rest) (acc @ [distance l])))"
| "legLoop dm _ acc = \<lparr>legDistances = acc, hasMissingData = False\<rparr>"

definition getLegDistanceDetails :: "shipment list \<Rightarrow> distanceMatrix \<Rightarrow> legDetails" where
  "getLegDistanceDetails ss dm =
     (if ss = [] then \<lparr>legDistances = [], hasMissingData = False\<rparr>
      else if length (uniqueStores ss) < 2 then \<lparr>legDistances = [], hasMissingData = False\<rparr>
      else legLoop dm (uniqueStores ss) [])"

definition calculateDistancePenalty :: "real list \<Rightarrow> real \<Rightarrow> real" where
  "calculateDistancePenalty legs preferredThreshold =
     (if legs = [] then 0
      else foldl (\<lambda>penalty d. if d \<le> preferredThreshold then penalty
                              else penalty + (d - preferredThreshold) * (d - preferredThreshold))
             0 legs)"

section \<open>Stop Sequencer\<close>

text \<open>
  The scan of \<open>runNearestNeighbor\<close> over \<open>remaining\<close>: the running best is the pair
  (\<open>nearestDist\<close>, \<open>nearestIndex\<close>); \<open>None\<close> stands for (\<open>Infinity\<close>, \<open>-1\<close>). A missing
  forward entry reads as \<open>Infinity\<close>, which is never below the running best.
\<close>

fun nearestLoop ::
  "distanceMatrix \<Rightarrow> store \<Rightarrow> store list \<Rightarrow> nat \<Rightarrow> (real \<times> nat) option \<Rightarrow> (real \<times> nat) option" where
  "nearestLoop dm cur [] i best = best"
| "nearestLoop dm cur (x # xs) i best =
     nearestLoop dm cur xs (Suc i)
       (case dm cur x of
          None \<Rightarrow> best
        | Some l \<Rightarrow> (case best of
                      None \<Rightarrow> Some (distance l, i)
                    | Some (nearestDist, nearestIndex) \<Rightarrow>
                        if distance l < nearestDist then Some (distance l, i) else best))"

lemma nearestLoop_bound:
  "nearestLoop dm cur xs i best = Some (d, j) \<Longrightarrow>
   (\<And>d' j'. best = Some (d', j') \<Longrightarrow> j' < i) \<Longrightarrow> j < i + length xs"
proof (induction xs arbitrary: i best)
  case Nil
  then show ?case by simp
next
  case (Cons x xs)
  have "j < Suc i + length xs"
  proof (rule Cons.IH [OF Cons.prems(1) [simplified]])
    fix d' j'
    assume "(case dm cur x of None \<Rightarrow> best
             | Some l \<Rightarrow> (case best of None \<Rightarrow> Some (distance l, i)
                 | Some (nearestDist, nearestIndex) \<Rightarrow>
                     if distance l < nearestDist then Some (distance l, i) else best))
            = Some (d', j')"
    then show "j' < Suc i"
      using Cons.prems(2) by (auto split: option.splits if_splits dest: less_SucI)
  qed
  then show ?case by simp
qed

function nnLoop :: "distanceMatrix \<Rightarrow> store \<Rightarrow> store list \<Rightarrow> store list" where
  "nnLoop dm currentLocation remaining =
     (if remaining = [] then []
      else (case nearestLoop dm currentLocation remaining 0 None of
              None \<Rightarrow> remaining
            | Some (nearestDist, nearestIndex) \<Rightarrow>
                (remaining ! nearestIndex)
                # nnLoop dm (remaining ! nearestIndex)
                    (take nearestIndex remaining @ drop (Suc nearestIndex) remaining)))"
  by pat_completeness auto
termination
proof (relation "measure (\<lambda>(dm, cur, remaining). length remaining)")
  show "wf (measure (\<lambda>(dm, cur, remaining). length remaining))" by simp
next
  fix dm :: distanceMatrix and currentLocation remaining x2 nearestDist nearestIndex
  assume ne: "remaining \<noteq> []"
    and r: "nearestLoop dm currentLocation remaining 0 None = Some x2"
    and x: "(nearestDist, nearestIndex) = x2"
  from r x have "nearestLoop dm currentLocation remaining 0 None = Some (nearestDist, nearestIndex)"
    by simp
  then have "nearestIndex < 0 + length remaining"
    by (rule nearestLoop_bound) simp
  then show "((dm, remaining ! nearestIndex,
               take nearestIndex remaining @ drop (Suc nearestIndex) remaining),
              (dm, currentLocation, remaining))
             \<in> measure (\<lambda>(dm, cur, remaining). length remaining)"
    by simp
qed

declare nnLoop.simps [simp del]

definition runNearestNeighbor :: "store list \<Rightarrow> store \<Rightarrow> distanceMatrix \<Rightarrow> store list" where
  "runNearestNeighbor items startLocation dm =
     (if length items < 2 then items else nnLoop dm startLocation items)"

definition hasCold :: "shipment list \<Rightarrow> store \<Rightarrow> bool" where
  "hasCold ss st = list_ex (\<lambda>s. store s = st \<and> (category s = Chiller \<or> category s = Freezer)) ss"

definition storeOrder :: "shipment list \<Rightarrow> store \<Rightarrow> distanceMatrix \<Rightarrow> store list" where
  "storeOrder ss wh dm =
     (let keys = js_keys (uniqueStores ss);
          withCold = filter (hasCold ss) keys;
          ambientOnly = filter (\<lambda>st. \<not> hasCold ss st) keys;
          orderedAmbient = (if ambientOnly \<noteq> [] then runNearestNeighbor ambientOnly wh dm else []);
          lastLocation = (if ambientOnly \<noteq> [] \<and> orderedAmbient \<noteq> [] then last orderedAmbient else wh)
      in orderedAmbient @ (if withCold \<noteq> [] then runNearestNeighbor withCold lastLocation dm else []))"

definition advancedOptimizeStopOrder ::
  "shipment list \<Rightarrow> store \<Rightarrow> distanceMatrix \<Rightarrow> shipment list" where
  "advancedOptimizeStopOrder ss wh dm =
     (if length ss \<le> 1 then ss
      else concat (map (\<lambda>st. filter (\<lambda>s. store s = st) ss) (storeOrder ss wh dm)))"

section \<open>Duty-Cycle Simulator\<close>

datatype hos = OK | DRIVING_VIOLATION | ON_DUTY_VIOLATION

record hosAcc =
  accTravel :: real
  accDistance :: real
  accStop :: real
  accOnDuty :: real
  accBreaks :: nat
  accLocation :: store

record metrics =
  travelTime :: real
  stopTime :: real
  totalDuration :: real
  totalDistance :: real
  hosStatus :: hos

definition loadingTime :: "(store \<Rightarrow> string option \<Rightarrow> pdur option) \<Rightarrow> shipment \<Rightarrow> real" where
  "loadingTime dd s =
     (case dd (store s) (productTypeId s) of
        None \<Rightarrow> 0
      | Some pDur \<Rightarrow> if loading pDur \<noteq> 0 then (pallets s / 26) * loading pDur else 0)"

definition unloadingTime :: "(store \<Rightarrow> string option \<Rightarrow> pdur option) \<Rightarrow> shipment \<Rightarrow> real" where
  "unloadingTime dd s =
     (case dd (store s) (productTypeId s) of
        None \<Rightarrow> 15
      | Some pDur \<Rightarrow> if unloading pDur \<noteq> 0 then (pallets s / 26) * unloading pDur else 15)"

definition timeAtStop ::
  "(store \<Rightarrow> string option \<Rightarrow> pdur option) \<Rightarrow> shipment list \<Rightarrow> store \<Rightarrow> real" where
  "timeAtStop dd orderedStops st =
     sum_list (map (unloadingTime dd) (filter (\<lambda>s. store s = st) orderedStops))"

text \<open>The block guarded by \<open>if (leg)\<close> (and, for the return leg, \<open>if (returnLeg)\<close>).\<close>

definition accrueLeg :: "leg option \<Rightarrow> hosAcc \<Rightarrow> hosAcc" where
  "accrueLeg lg a =
     (case lg of
        None \<Rightarrow> a
      | Some l \<Rightarrow>
          (let a1 = (if accOnDuty a + duration l > real (accBreaks a + 1) * 480
                     then a\<lparr>accOnDuty := accOnDuty a + 30, accBreaks := accBreaks a + 1\<rparr>
                     else a)
           in a1\<lparr>accTravel := accTravel a1 + duration l,
                 accDistance := accDistance a1 + distance l,
                 accOnDuty := accOnDuty a1 + duration l\<rparr>))"

definition visitStore ::
  "distanceMatrix \<Rightarrow> (store \<Rightarrow> string option \<Rightarrow> pdur option) \<Rightarrow> shipment list
   \<Rightarrow> hosAcc \<Rightarrow> store \<Rightarrow> hosAcc" where
  "visitStore dm dd orderedStops a st =
     (let a1 = accrueLeg (dm (accLocation a) st) a;
          timeAtThisStop = timeAtStop dd orderedStops st
      in a1\<lparr>accStop := accStop a1 + timeAtThisStop,
            accOnDuty := accOnDuty a1 + timeAtThisStop,
            accLocation := st\<rparr>)"

definition hosStart ::
  "(store \<Rightarrow> string option \<Rightarrow> pdur option) \<Rightarrow> shipment list \<Rightarrow> store \<Rightarrow> hosAcc" where
  "hosStart dd orderedStops wh =
     (let st = sum_list (map (loadingTime dd) orderedStops)
      in \<lparr>accTravel = 0, accDistance = 0, accStop = st, accOnDuty = st, accBreaks = 0,
          accLocation = wh\<rparr>)"

definition hosRun ::
  "shipment list \<Rightarrow> store \<Rightarrow> distanceMatrix \<Rightarrow> (store \<Rightarrow> string option \<Rightarrow> pdur option) \<Rightarrow> hosAcc" where
  "hosRun orderedStops wh dm dd =
     (let a = foldl (visitStore dm dd orderedStops) (hosStart dd orderedStops wh)
                (uniqueStores orderedStops)
      in accrueLeg (dm (accLocation a) wh) a)"

definition hosFinal :: "hosAcc \<Rightarrow> hos" where
  "hosFinal a =
     (let s1 = (if accTravel a > 11 * 60 then DRIVING_VIOLATION else OK)
      in if accOnDuty a > 14 * 60 then ON_DUTY_VIOLATION else s1)"

definition calculateRouteMetricsWithHOS ::
  "shipment list \<Rightarrow> store \<Rightarrow> distanceMatrix \<Rightarrow> (store \<Rightarrow> string option \<Rightarrow> pdur option) \<Rightarrow> metrics" where
  "calculateRouteMetricsWithHOS orderedStops wh dm dd =
     (let a = hosRun orderedStops wh dm dd
      in \<lparr>travelTime = js_round (accTravel a),
          stopTime = js_round (accStop a),
          totalDuration = js_round (accOnDuty a),
          totalDistance = js_round (accDistance a),
          hosStatus = hosFinal a\<rparr>)"

section \<open>Insertion Scorer\<close>

definition windowRejects :: "planningContext \<Rightarrow> shipment \<Rightarrow> string \<Rightarrow> bool" where
  "windowRejects ctx shipment routeTime =
     (case restrictions ctx (store shipment) of
        None \<Rightarrow> False
      | Some res \<Rightarrow> deliveryWindow res \<noteq> [] \<and> trim (deliveryWindow res) \<noteq> []
                    \<and> toUpperCase (deliveryWindow res) \<noteq> ''N/A''
                    \<and> \<not> isTimeInWindow routeTime (deliveryWindow res))"

definition preferredLegThreshold :: "planningContext \<Rightarrow> real" where
  "preferredLegThreshold ctx = num_or (MAX_DISTANCE_BETWEEN_STOPS ctx) 50"

definition hardLegLimit :: "planningContext \<Rightarrow> real" where
  "hardLegLimit ctx =
     num_or (ABSOLUTE_MAX_DISTANCE_BETWEEN_STOPS ctx) (max 75 (preferredLegThreshold ctx))"

definition maxLeg :: "real list \<Rightarrow> real" where
  "maxLeg legs = (if legs = [] then 0 else foldl max (hd legs) (tl legs))"

definition checkAndScoreInsertion :: "shipment \<Rightarrow> route \<Rightarrow> planningContext \<Rightarrow> real option" where
  "checkAndScoreInsertion shipment rt ctx =
     (let dm = distanceMatrix ctx; wh = warehouse ctx;
          tempStops = stops rt @ [shipment]
      in if wh = [] then None
         else if length (uniqueStores tempStops) > MAX_STOPS_GENERAL ctx then None
         else if \<not> tempCheck ctx tempStops then None
         else if windowRejects ctx shipment (time rt) then None
         else
           (let cr = carrier rt;
                requiredSize = getRequiredTrailerSize (time rt) tempStops (restrictions ctx);
                cap = carrierCapacity cr requiredSize
            in if cap = 0 \<or> totalPallets rt + pallets shipment > cap * OVERPLAN_FACTOR ctx
               then None
               else
                 (let currentOptimized = advancedOptimizeStopOrder (stops rt) wh dm;
                      tempOptimized = advancedOptimizeStopOrder tempStops wh dm;
                      currentLegDetails = getLegDistanceDetails currentOptimized dm
                  in if hasMissingData currentLegDetails then None
                     else
                       (let proposedLegDetails = getLegDistanceDetails tempOptimized dm
                        in if hasMissingData proposedLegDetails then None
                           else if maxLeg (legDistances proposedLegDetails) > hardLegLimit ctx
                           then None
                           else
                             (let distancePenaltyDelta =
                                    calculateDistancePenalty (legDistances proposedLegDetails)
                                      (preferredLegThreshold ctx)
                                    - calculateDistancePenalty (legDistances currentLegDetails)
                                        (preferredLegThreshold ctx);
                                  tempMetrics = calculateRouteMetricsWithHOS tempOptimized wh dm
                                                  (detailedDurations ctx)
                              in if totalDistance tempMetrics > MAX_ROUTE_MILEAGE ctx
                                    \<or> hosStatus tempMetrics \<noteq> OK
                                 then None
                                 else
                                   (let originalMetrics =
                                          calculateRouteMetricsWithHOS currentOptimized wh dm
                                            (detailedDurations ctx);
                                        newCost = totalDistance tempMetrics * costPerMile cr
                                                  + costPerRoute cr;
                                        oldCost = totalDistance originalMetrics * costPerMile cr
                                                  + costPerRoute cr
                                    in Some ((newCost - oldCost) + distancePenaltyDelta)))))))"

section \<open>Rebalancer\<close>

text \<open>
  The route score can be non-finite: with a zero capacity the utilization
  \<open>totalPallets / capacity\<close> is \<open>NaN\<close> (zero pallets) or infinite (otherwise), and its
  squared complement is \<open>NaN\<close> or \<open>+Infinity\<close>.
\<close>

datatype jsnum = Fin real | PosInf | NaN

fun jsAdd :: "jsnum \<Rightarrow> jsnum \<Rightarrow> jsnum" where
  "jsAdd NaN _ = NaN"
| "jsAdd _ NaN = NaN"
| "jsAdd PosInf _ = PosInf"
| "jsAdd _ PosInf = PosInf"
| "jsAdd (Fin a) (Fin b) = Fin (a + b)"

fun jsLess :: "jsnum \<Rightarrow> jsnum \<Rightarrow> bool" where
  "jsLess (Fin a) (Fin b) = (a < b)"
| "jsLess (Fin a) PosInf = True"
| "jsLess _ _ = False"

definition calculateRouteScore :: "route \<Rightarrow> planningContext \<Rightarrow> jsnum" where
  "calculateRouteScore rt ctx =
     (let m = calculateRouteMetricsWithHOS (stops rt) (warehouse ctx) (distanceMatrix ctx)
                (detailedDurations ctx);
          trailerSize = getRequiredTrailerSize (time rt) (stops rt) (restrictions ctx);
          cap = carrierCapacity (carrier rt) trailerSize;
          distanceCost = totalDistance m * costPerMile (carrier rt);
          routeCost = costPerRoute (carrier rt);
          totalCost = distanceCost + routeCost;
          utilizationPenalty =
            (if cap = 0 then (if totalPallets rt = 0 then NaN else PosInf)
             else Fin ((1 - totalPallets rt / cap)\<^sup>2 * 5000));
          maxMileage = num_or (MAX_ROUTE_MILEAGE ctx) 425;
          mileageTarget = maxMileage * (85 / 100);
          mileagePenalty =
            (if totalDistance m > mileageTarget
             then ((totalDistance m - mileageTarget) / 10)\<^sup>2 * 100 else 0);
          clusterPenalty =
            (if length (stops rt) > 1 \<and> length (uniq (map cluster (stops rt))) > 1
             then 800 else 0)
      in jsAdd (jsAdd (jsAdd (Fin totalCost) utilizationPenalty) (Fin mileagePenalty))
           (Fin clusterPenalty))"

definition isRouteValid :: "route \<Rightarrow> planningContext \<Rightarrow> bool" where
  "isRouteValid rt ctx =
     (if length (uniqueStores (stops rt)) > MAX_STOPS_GENERAL ctx then False
      else if \<not> tempCheck ctx (stops rt) then False
      else
        (let trailerSize = getRequiredTrailerSize (time rt) (stops rt) (restrictions ctx);
             cap = carrierCapacity (carrier rt) trailerSize
         in if totalPallets rt > cap * OVERPLAN_FACTOR ctx then False
            else
              (let m = calculateRouteMetricsWithHOS (stops rt) (warehouse ctx)
                         (distanceMatrix ctx) (detailedDurations ctx)
               in if totalDistance m > MAX_ROUTE_MILEAGE ctx \<or> hosStatus m \<noteq> OK then False
                  else True)))"

text \<open>
  One tentative swap of \<open>route1.stops[si]\<close> with \<open>route2.stops[sj]\<close>: the routes are
  mutated, scored and validated, and either kept or reverted field by field. The result
  carries the two routes and whether the swap was kept.
\<close>

definition trySwap ::
  "planningContext \<Rightarrow> route \<Rightarrow> route \<Rightarrow> nat \<Rightarrow> nat \<Rightarrow> route \<times> route \<times> bool" where
  "trySwap ctx route1 route2 si sj =
     (let stop1 = stops route1 ! si;
          stop2 = stops route2 ! sj;
          currentScore = jsAdd (calculateRouteScore route1 ctx) (calculateRouteScore route2 ctx);
          r1a = route1\<lparr>stops := (stops route1)[si := stop2]\<rparr>;
          r2a = route2\<lparr>stops := (stops route2)[sj := stop1]\<rparr>;
          newRoute1Pallets = sum_list (map pallets (stops r1a));
          newRoute2Pallets = sum_list (map pallets (stops r2a));
          oldRoute1Pallets = totalPallets r1a;
          oldRoute2Pallets = totalPallets r2a;
          r1b = r1a\<lparr>totalPallets := newRoute1Pallets\<rparr>;
          r2b = r2a\<lparr>totalPallets := newRoute2Pallets\<rparr>;
          newScore = jsAdd (calculateRouteScore r1b ctx) (calculateRouteScore r2b ctx)
      in if jsLess newScore currentScore \<and> isRouteValid r1b ctx \<and> isRouteValid r2b ctx
         then (r1b, r2b, True)
         else (r1b\<lparr>stops := (stops r1b)[si := stop1], totalPallets := oldRoute1Pallets\<rparr>,
               r2b\<lparr>stops := (stops r2b)[sj := stop2], totalPallets := oldRoute2Pallets\<rparr>,
               False))"

definition swapStep ::
  "planningContext \<Rightarrow> route \<times> route \<times> bool \<Rightarrow> nat \<times> nat \<Rightarrow> route \<times> route \<times> bool" where
  "swapStep ctx acc p =
     (case acc of (route1, route2, improved) \<Rightarrow>
        (case trySwap ctx route1 route2 (fst p) (snd p) of
           (r1, r2, kept) \<Rightarrow> (r1, r2, improved \<or> kept)))"

definition sameSlot :: "route \<Rightarrow> route \<Rightarrow> bool" where
  "sameSlot a b = (name (carrier a) = name (carrier b) \<and> time a = time b)"

definition swapRoutes ::
  "planningContext \<Rightarrow> route list \<times> bool \<Rightarrow> nat \<times> nat \<Rightarrow> route list \<times> bool" where
  "swapRoutes ctx acc p =
     (case acc of (routes, improved) \<Rightarrow>
        (let i = fst p; j = snd p; route1 = routes ! i; route2 = routes ! j
         in if \<not> sameSlot route1 route2 then (routes, improved)
            else (case foldl (swapStep ctx) (route1, route2, improved)
                         (concat (map (\<lambda>si. map (\<lambda>sj. (si, sj)) [0..<length (stops route2)])
                                    [0..<length (stops route1)])) of
                    (r1, r2, improved') \<Rightarrow> (routes[i := r1, j := r2], improved'))))"

definition swapPass :: "planningContext \<Rightarrow> route list \<Rightarrow> bool \<Rightarrow> route list \<times> bool" where
  "swapPass ctx routes improved =
     foldl (swapRoutes ctx) (routes, improved)
       (concat (map (\<lambda>i. map (\<lambda>j. (i, j)) [Suc i..<length routes]) [0..<length routes]))"

text \<open>
  The consolidation trial: every stop of the source is scored against the target with the
  stops moved so far (\<open>tempPallets\<close> stays the target's original total).
\<close>

fun simulateMoves ::
  "planningContext \<Rightarrow> route \<Rightarrow> shipment list \<Rightarrow> real \<Rightarrow> shipment list \<Rightarrow> shipment list option" where
  "simulateMoves ctx targetRoute tempStops tempPallets [] = Some tempStops"
| "simulateMoves ctx targetRoute tempStops tempPallets (stop # rest) =
     (if checkAndScoreInsertion stop
           (targetRoute\<lparr>stops := tempStops, totalPallets := tempPallets + pallets stop\<rparr>) ctx = None
      then None
      else simulateMoves ctx targetRoute (tempStops @ [stop]) tempPallets rest)"

fun tryTargets ::
  "planningContext \<Rightarrow> route list \<Rightarrow> nat \<Rightarrow> nat list \<Rightarrow> route list \<times> bool" where
  "tryTargets ctx routes i [] = (routes, False)"
| "tryTargets ctx routes i (j # js) =
     (if i = j then tryTargets ctx routes i js
      else
        (let sourceRoute = routes ! i; targetRoute = routes ! j
         in if \<not> sameSlot sourceRoute targetRoute then tryTargets ctx routes i js
            else
              (case simulateMoves ctx targetRoute (stops targetRoute) (totalPallets targetRoute)
                      (stops sourceRoute) of
                 None \<Rightarrow> tryTargets ctx routes i js
               | Some tempStops \<Rightarrow>
                   if isRouteValid
                        (targetRoute\<lparr>stops := tempStops,
                           totalPallets := totalPallets targetRoute + totalPallets sourceRoute\<rparr>) ctx
                   then (let merged = targetRoute\<lparr>stops := stops targetRoute @ stops sourceRoute,
                                        totalPallets := totalPallets targetRoute
                                                        + totalPallets sourceRoute\<rparr>;
                             routes' = routes[j := merged]
                         in (take i routes' @ drop (Suc i) routes', True))
                   else tryTargets ctx routes i js)))"

fun consolidatePass ::
  "planningContext \<Rightarrow> route list \<Rightarrow> nat list \<Rightarrow> bool \<Rightarrow> route list \<times> bool" where
  "consolidatePass ctx routes [] improved = (routes, improved)"
| "consolidatePass ctx routes (i # is) improved =
     (if stops (routes ! i) = [] then consolidatePass ctx routes is improved
      else (case tryTargets ctx routes i [0..<length routes] of
              (routes', merged) \<Rightarrow> consolidatePass ctx routes' is (improved \<or> merged)))"

text \<open>The \<open>while (improved && iterations < 15)\<close> loop, counting the rounds left.\<close>

fun rebalanceRounds :: "planningContext \<Rightarrow> nat \<Rightarrow> route list \<Rightarrow> route list" where
  "rebalanceRounds ctx 0 routes = routes"
| "rebalanceRounds ctx (Suc n) routes =
     (case consolidatePass ctx routes (rev [0..<length routes]) False of
        (routes1, improved1) \<Rightarrow>
          (case swapPass ctx routes1 improved1 of
             (routes2, improved2) \<Rightarrow>
               if improved2 then rebalanceRounds ctx n routes2 else routes2))"

definition rebalanceRoutes :: "route list \<Rightarrow> planningContext \<Rightarrow> route list" where
  "rebalanceRoutes routes ctx = rebalanceRounds ctx 15 routes"

section \<open>Plan sheet\<close>

record planRow =
  rowCarrier :: string
  rowRouteId :: string
  rowCluster :: string
  rowStops :: "shipment list"
  rowMetrics :: metrics
  rowTrailer :: trailerSize
  rowPallets :: real
  rowUtilization :: "real option"
  rowCost :: real
  rowOver :: bool
  rowNotes :: string

definition writeRouteToSheet :: "route \<Rightarrow> planRow list \<Rightarrow> planningContext \<Rightarrow> planRow list" where
  "writeRouteToSheet rt planSheet ctx =
     (if stops rt = [] then planSheet
      else
        (let optimizedStops = advancedOptimizeStopOrder (stops rt) (warehouse ctx) (distanceMatrix ctx);
             m = calculateRouteMetricsWithHOS optimizedStops (warehouse ctx) (distanceMatrix ctx)
                   (detailedDurations ctx);
             trailerSize = getRequiredTrailerSize (time rt) (stops rt) (restrictions ctx);
             cap = (if str_includes (name (carrier rt)) ''Unplannable''
                       \<or> str_includes (name (carrier rt)) ''Overspill'' then 999
                    else carrierCapacity (carrier rt) trailerSize);
             utilization = (if cap > 0 \<and> cap < 999 then Some (totalPallets rt / cap * 100) else None);
             cost = totalDistance m * costPerMile (carrier rt) + costPerRoute (carrier rt)
         in planSheet @
            [\<lparr>rowCarrier = name (carrier rt), rowRouteId = routeId rt, rowCluster = routeCluster rt,
              rowStops = optimizedStops, rowMetrics = m, rowTrailer = trailerSize,
              rowPallets = totalPallets rt, rowUtilization = utilization, rowCost = cost,
              rowOver = (totalDistance m > MAX_ROUTE_MILEAGE ctx), rowNotes = routeNotes rt\<rparr>]))"

section \<open>Route Builder\<close>

fun showNat :: "nat \<Rightarrow> string" where
  "showNat n = (if n < 10 then [char_of (48 + n)]
                else showNat (n div 10) @ [char_of (48 + n mod 10)])"

declare showNat.simps [simp del]

definition stripWs :: "string \<Rightarrow> string" where
  "stripWs s = filter (\<lambda>c. \<not> is_ws c) s"

text \<open>\<open>xs.sort((a, b) => b.pallets - a.pallets)\<close>: a stable sort by descending pallets.\<close>

definition sortByPalletsDesc :: "shipment list \<Rightarrow> shipment list" where
  "sortByPalletsDesc xs = sort_key (\<lambda>s. - pallets s) xs"

definition removeAt :: "nat \<Rightarrow> 'a list \<Rightarrow> 'a list" where
  "removeAt i xs = take i xs @ drop (Suc i) xs"

fun findIndexFrom :: "('a \<Rightarrow> bool) \<Rightarrow> 'a list \<Rightarrow> nat \<Rightarrow> nat option" where
  "findIndexFrom P [] i = None"
| "findIndexFrom P (x # xs) i = (if P x then Some i else findIndexFrom P xs (Suc i))"

definition slotPairs :: "carrier list \<Rightarrow> (nat \<times> nat) list" where
  "slotPairs cs =
     concat (map (\<lambda>ci. map (\<lambda>ti. (ci, ti)) [0..<length (timeSlots (cs ! ci))]) [0..<length cs])"

definition initialStep ::
  "shipment \<Rightarrow> carrier list \<Rightarrow> planningContext \<Rightarrow> (real \<times> nat \<times> nat \<times> route) option
   \<Rightarrow> nat \<times> nat \<Rightarrow> (real \<times> nat \<times> nat \<times> route) option" where
  "initialStep shipment cs ctx best p =
     (let cr = cs ! fst p; ts = timeSlots cr ! snd p
      in if used ts \<ge> capacity ts then best
         else
           (let tempRoute = \<lparr>carrier = cr, time = slotTime ts, stops = [shipment],
                              totalPallets = pallets shipment, routeCluster = cluster shipment,
                              routeId = [], routeNotes = [], seedAttempts = 0\<rparr>
            in if checkAndScoreInsertion shipment (tempRoute\<lparr>stops := []\<rparr>) ctx = None then best
               else
                 (let m = calculateRouteMetricsWithHOS [shipment] (warehouse ctx)
                            (distanceMatrix ctx) (detailedDurations ctx);
                      cost = totalDistance m * costPerMile cr + costPerRoute cr
                  in (case best of
                        None \<Rightarrow> Some (cost, fst p, snd p, tempRoute)
                      | Some (bestCost, _) \<Rightarrow>
                          if cost < bestCost then Some (cost, fst p, snd p, tempRoute) else best))))"

definition findBestInitialCarrier ::
  "shipment \<Rightarrow> carrier list \<Rightarrow> planningContext \<Rightarrow> (nat \<times> nat \<times> route) option" where
  "findBestInitialCarrier shipment cs ctx =
     map_option snd (foldl (initialStep shipment cs ctx) None (slotPairs cs))"

definition bumpFailures :: "shipment \<Rightarrow> shipment" where
  "bumpFailures s = s\<lparr>insertionFailures := insertionFailures s + 1\<rparr>"

definition addStop :: "route \<Rightarrow> shipment \<Rightarrow> route" where
  "addStop rt s = rt\<lparr>stops := stops rt @ [s], totalPallets := totalPallets rt + pallets s\<rparr>"

text \<open>Proactive insertion: the best existing route for one shipment (strict comparison).\<close>

definition bestRouteStep ::
  "planningContext \<Rightarrow> route list \<Rightarrow> shipment \<Rightarrow> (real \<times> nat) option \<Rightarrow> nat \<Rightarrow> (real \<times> nat) option" where
  "bestRouteStep ctx rs shipment best r =
     (case checkAndScoreInsertion shipment (rs ! r) ctx of
        None \<Rightarrow> best
      | Some score \<Rightarrow> (case best of
                         None \<Rightarrow> Some (score, r)
                       | Some (bestScore, _) \<Rightarrow> if score < bestScore then Some (score, r) else best))"

text \<open>
  The scan runs from the last unassigned shipment to the first; its input is the reversed
  list, and the shipments kept are collected in their original order.
\<close>

fun proactiveInsert ::
  "planningContext \<Rightarrow> shipment list \<Rightarrow> route list \<Rightarrow> shipment list \<Rightarrow> route list \<times> shipment list" where
  "proactiveInsert ctx [] rs kept = (rs, kept)"
| "proactiveInsert ctx (shipment # rest) rs kept =
     (if failureReason shipment \<noteq> None then proactiveInsert ctx rest rs (shipment # kept)
      else (case foldl (bestRouteStep ctx rs shipment) None [0..<length rs] of
              None \<Rightarrow> proactiveInsert ctx rest rs (shipment # kept)
            | Some (bestScore, bestRouteIndex) \<Rightarrow>
                proactiveInsert ctx rest
                  (rs[bestRouteIndex := addStop (rs ! bestRouteIndex) shipment]) kept))"

text \<open>
  One growth scan over the unassigned shipments, last to first. The index of the head of
  the reversed input is the number of elements after it.
\<close>

fun growScan ::
  "planningContext \<Rightarrow> route \<Rightarrow> shipment list \<Rightarrow> shipment list \<Rightarrow> (real \<times> nat) option
   \<Rightarrow> shipment list \<times> (real \<times> nat) option" where
  "growScan ctx currentRoute [] acc best = (acc, best)"
| "growScan ctx currentRoute (candidate # rest) acc best =
     (if failureReason candidate \<noteq> None then growScan ctx currentRoute rest (candidate # acc) best
      else
        (let differentCluster = (routeCluster currentRoute \<noteq> ''Others''
                                 \<and> cluster candidate \<noteq> routeCluster currentRoute);
             canRelaxCluster = (differentCluster
                                \<and> (insertionFailures candidate \<ge> CLUSTER_FAILURE_THRESHOLD ctx
                                    \<or> seedAttempts currentRoute \<ge> RELAX_MIN_ATTEMPTS ctx))
         in if differentCluster \<and> \<not> canRelaxCluster
            then growScan ctx currentRoute rest (bumpFailures candidate # acc) best
            else (case checkAndScoreInsertion candidate currentRoute ctx of
                    None \<Rightarrow> growScan ctx currentRoute rest (bumpFailures candidate # acc) best
                  | Some score \<Rightarrow>
                      growScan ctx currentRoute rest (candidate # acc)
                        (case best of
                           None \<Rightarrow> Some (score, length rest)
                         | Some (bestScore, _) \<Rightarrow>
                             if score < bestScore then Some (score, length rest) else best))))"

lemma growScan_length:
  "growScan ctx rt xs acc best = (ys, b) \<Longrightarrow> length ys = length xs + length acc"
  by (induction xs arbitrary: acc best) (auto simp: Let_def split: if_splits option.splits)

lemma growScan_index:
  "growScan ctx rt xs acc best = (ys, Some (sc, i)) \<Longrightarrow>
   (\<And>s' i'. best = Some (s', i') \<Longrightarrow> i' < n) \<Longrightarrow> length xs \<le> n \<Longrightarrow> i < n"
proof (induction xs arbitrary: acc best)
  case Nil
  then show ?case by simp
next
  case (Cons c rest)
  have len: "length rest \<le> n" "length rest < n" using Cons.prems(3) by simp_all
  from Cons.prems(1) obtain acc' best' where
    r: "growScan ctx rt rest acc' best' = (ys, Some (sc, i))"
    and b: "best' = best \<or> (\<exists>s. best' = Some (s, length rest))"
    by (auto simp: Let_def split: if_splits option.splits)
  show ?case
  proof (rule Cons.IH [OF r _ len(1)])
    fix s' i'
    assume "best' = Some (s', i')"
    with b Cons.prems(2) len(2) show "i' < n" by auto
  qed
qed

lemma growScan_shrinks:
  assumes "(scanned, Some z) = growScan ctx rt (rev un) [] None" and "(sc, i) = z"
  shows "length (removeAt i scanned) < length un"
proof -
  from assms have g: "growScan ctx rt (rev un) [] None = (scanned, Some (sc, i))" by simp
  from growScan_length [OF g] have l: "length scanned = length un" by simp
  from g have "i < length (rev un)" by (rule growScan_index) simp_all
  with l show ?thesis by (simp add: removeAt_def)
qed

function growRoute ::
  "planningContext \<Rightarrow> route \<Rightarrow> shipment list \<Rightarrow> route \<times> shipment list" where
  "growRoute ctx currentRoute unassignedShipments =
     (case growScan ctx currentRoute (rev unassignedShipments) [] None of
        (scanned, None) \<Rightarrow> (currentRoute, scanned)
      | (scanned, Some (bestScore, index)) \<Rightarrow>
          (let addedShipment = (scanned ! index)\<lparr>insertionFailures := 0\<rparr>;
               grown = addStop currentRoute addedShipment;
               grown' = (if routeCluster currentRoute = ''Others'' \<and> cluster addedShipment \<noteq> ''Others''
                         then grown\<lparr>routeCluster := cluster addedShipment\<rparr> else grown)
           in growRoute ctx grown' (removeAt index scanned)))"
  by pat_completeness auto
termination
proof (relation "measure (\<lambda>(ctx, rt, un). length un)", goal_cases)
  case 1
  show ?case by simp
next
  case (2 ctx currentRoute unassignedShipments scanned y z bestScore index)
  then show ?case by (simp add: growScan_shrinks)
qed

declare growRoute.simps [simp del]

text \<open>
  With no unassigned shipment left the scan finds no candidate and the loop ends; the
  guarded form of the equation is the one used for evaluation.
\<close>

lemma growRoute_guarded [code]:
  "growRoute ctx currentRoute unassignedShipments =
     (if unassignedShipments = [] then (currentRoute, [])
      else (case growScan ctx currentRoute (rev unassignedShipments) [] None of
        (scanned, None) \<Rightarrow> (currentRoute, scanned)
      | (scanned, Some (bestScore, index)) \<Rightarrow>
          (let addedShipment = (scanned ! index)\<lparr>insertionFailures := 0\<rparr>;
               grown = addStop currentRoute addedShipment;
               grown' = (if routeCluster currentRoute = ''Others'' \<and> cluster addedShipment \<noteq> ''Others''
                         then grown\<lparr>routeCluster := cluster addedShipment\<rparr> else grown)
           in growRoute ctx grown' (removeAt index scanned))))"
proof (cases "unassignedShipments = []")
  case True
  have "growRoute ctx currentRoute [] = (currentRoute, [])"
    by (subst growRoute.simps) (simp only: rev.simps growScan.simps prod.case option.case)
  with True show ?thesis by simp
next
  case False
  then show ?thesis by (subst growRoute.simps) simp
qed

record planState =
  unassigned :: "shipment list"
  routes :: "route list"
  carriers :: "carrier list"
  iteration :: nat
  planSheet :: "planRow list"

definition seedFailure :: "planningContext \<Rightarrow> shipment \<Rightarrow> failure" where
  "seedFailure ctx seedShipment =
     (case restrictions ctx (store seedShipment) of
        None \<Rightarrow> NoViableCarrier
      | Some storeRes \<Rightarrow>
          if deliveryWindow storeRes \<noteq> [] \<and> trim (deliveryWindow storeRes) \<noteq> []
             \<and> toUpperCase (deliveryWindow storeRes) \<noteq> ''N/A''
          then TimeConstraint else NoViableCarrier)"

definition relaxedMinimumFor :: "planningContext \<Rightarrow> route \<Rightarrow> real" where
  "relaxedMinimumFor ctx currentRoute =
     max 1 (of_int \<lceil>MIN_PALLETS_PER_ROUTE ctx
                     * (if seedAttempts currentRoute \<ge> RELAX_MIN_ATTEMPTS ctx
                        then RELAX_MIN_FACTOR ctx else 1)\<rceil>)"

definition useSlot :: "carrier list \<Rightarrow> nat \<Rightarrow> nat \<Rightarrow> carrier list" where
  "useSlot cs ci ti =
     cs[ci := (cs ! ci)\<lparr>timeSlots :=
                 (timeSlots (cs ! ci))[ti := (timeSlots (cs ! ci) ! ti)
                                         \<lparr>used := used (timeSlots (cs ! ci) ! ti) + 1\<rparr>]\<rparr>]"

text \<open>
  The \<open>while (planningInProgress)\<close> loop of \<open>runPlanningLoop\<close>. The first argument bounds
  the number of iterations; \<open>None\<close> means the bound was reached before the loop ended.
\<close>

fun planningLoop :: "nat \<Rightarrow> planningContext \<Rightarrow> planState \<Rightarrow> planState option" where
  "planningLoop 0 ctx st = None"
| "planningLoop (Suc n) ctx st =
     (let sortedShipments = sortByPalletsDesc (unassigned st);
          (routes1, unassigned1) =
             (if routes st \<noteq> [] then proactiveInsert ctx (rev sortedShipments) (routes st) []
              else (routes st, sortedShipments))
      in case findIndexFrom (\<lambda>s. attempts s < MAX_PLANNING_ATTEMPTS ctx \<and> failureReason s = None)
                unassigned1 0 of
           None \<Rightarrow>
             (if routes1 \<noteq> []
              then (let rebalanced = rebalanceRoutes routes1 ctx
                    in Some (st\<lparr>unassigned := unassigned1, routes := rebalanced,
                                planSheet := foldl (\<lambda>sh rt. writeRouteToSheet rt sh ctx)
                                               (planSheet st) rebalanced\<rparr>))
              else Some (st\<lparr>unassigned := unassigned1, routes := routes1\<rparr>))
         | Some seedIndex \<Rightarrow>
             (let seedShipment = (unassigned1 ! seedIndex)\<lparr>attempts := attempts (unassigned1 ! seedIndex) + 1\<rparr>;
                  unassigned2 = removeAt seedIndex unassigned1
              in case findBestInitialCarrier seedShipment (carriers st) ctx of
                   None \<Rightarrow>
                     planningLoop n ctx
                       (st\<lparr>unassigned := unassigned2
                                           @ [seedShipment\<lparr>failureReason := Some (seedFailure ctx seedShipment)\<rparr>],
                           routes := routes1\<rparr>)
                 | Some (ci, ti, route0) \<Rightarrow>
                     (let (currentRoute, unassigned3) =
                            growRoute ctx (route0\<lparr>seedAttempts := attempts seedShipment\<rparr>) unassigned2
                      in if totalPallets currentRoute < relaxedMinimumFor ctx currentRoute
                         then planningLoop n ctx
                                (st\<lparr>unassigned := unassigned3 @ map bumpFailures (stops currentRoute),
                                    routes := routes1\<rparr>)
                         else planningLoop n ctx
                                (st\<lparr>unassigned := unassigned3,
                                    routes := routes1
                                      @ [currentRoute\<lparr>routeId := stripWs (name (carrier currentRoute))
                                                                   @ ''_'' @ showNat (iteration st)\<rparr>],
                                    carriers := useSlot (carriers st) ci ti,
                                    iteration := iteration st + 1\<rparr>))))"

section \<open>Capacity Utilizer\<close>

text \<open>
  The \<open>while (j < unassigned.length && totalPallets < MIN_PALLETS_PER_ROUTE)\<close> loop: one
  pass over the unassigned list; accepted shipments move to \<open>potentialStops\<close>, rejected ones
  stay (with one more insertion failure), and the pass stops once the minimum is met.
\<close>

fun accumulate ::
  "planningContext \<Rightarrow> carrier \<Rightarrow> string \<Rightarrow> shipment list \<Rightarrow> real \<Rightarrow> shipment list \<Rightarrow> shipment list
   \<Rightarrow> shipment list \<times> real \<times> shipment list" where
  "accumulate ctx cr slot potentialStops palletSum kept [] = (potentialStops, palletSum, kept)"
| "accumulate ctx cr slot potentialStops palletSum kept (shipment # rest) =
     (if \<not> palletSum < MIN_PALLETS_PER_ROUTE ctx then (potentialStops, palletSum, kept @ shipment # rest)
      else
        (let tempRoute = \<lparr>carrier = cr, time = slot, stops = potentialStops @ [shipment],
                           totalPallets = palletSum + pallets shipment, routeCluster = [],
                           routeId = [], routeNotes = [], seedAttempts = 0\<rparr>
         in if checkAndScoreInsertion shipment tempRoute ctx \<noteq> None
            then accumulate ctx cr slot (potentialStops @ [shipment\<lparr>insertionFailures := 0\<rparr>])
                   (palletSum + pallets shipment) kept rest
            else accumulate ctx cr slot potentialStops palletSum (kept @ [bumpFailures shipment]) rest))"

definition pullForwardMinimum :: "planningContext \<Rightarrow> real" where
  "pullForwardMinimum ctx = max 15 (of_int \<lceil>MIN_PALLETS_PER_ROUTE ctx * RELAX_MIN_FACTOR ctx\<rceil>)"

text \<open>The state of the pass: unassigned shipments, routes created, carriers.\<close>

fun pullForwardUnits ::
  "planningContext \<Rightarrow> nat \<Rightarrow> nat \<Rightarrow> nat
   \<Rightarrow> shipment list \<times> route list \<times> carrier list \<Rightarrow> shipment list \<times> route list \<times> carrier list" where
  "pullForwardUnits ctx ci ti 0 acc = acc"
| "pullForwardUnits ctx ci ti (Suc n) (un, routesCreated, cs) =
     (let cr = cs ! ci; ts = timeSlots cr ! ti
      in case accumulate ctx cr (slotTime ts) [] 0 [] un of
           (potentialStops, palletSum, un') \<Rightarrow>
             if palletSum \<ge> pullForwardMinimum ctx
             then pullForwardUnits ctx ci ti n
                    (un',
                     routesCreated
                       @ [\<lparr>carrier = cr, time = slotTime ts, stops = potentialStops,
                            totalPallets = palletSum,
                            routeCluster = (case potentialStops of [] \<Rightarrow> [] | p # _ \<Rightarrow> cluster p),
                            routeId = stripWs (name cr) @ ''_PF_''
                                      @ showNat (length routesCreated + 1),
                            routeNotes = ''Pull Forward Request'', seedAttempts = 0\<rparr>],
                     useSlot cs ci ti)
             else pullForwardUnits ctx ci ti n (un' @ potentialStops, routesCreated, cs))"

definition pullForwardSlot ::
  "planningContext \<Rightarrow> shipment list \<times> route list \<times> carrier list \<Rightarrow> nat \<times> nat
   \<Rightarrow> shipment list \<times> route list \<times> carrier list" where
  "pullForwardSlot ctx acc p =
     (case acc of (un, routesCreated, cs) \<Rightarrow>
        (let ts = timeSlots (cs ! fst p) ! snd p
         in if used ts < capacity ts
            then pullForwardUnits ctx (fst p) (snd p) (capacity ts - used ts) acc
            else acc))"

definition utilizePullForwardRequests ::
  "shipment list \<Rightarrow> carrier list \<Rightarrow> planningContext
   \<Rightarrow> shipment list \<times> route list \<times> carrier list" where
  "utilizePullForwardRequests remainingShipments cs ctx =
     foldl (pullForwardSlot ctx) (remainingShipments, [], cs) (slotPairs cs)"

text \<open>
  \<open>runPlanningLoop\<close>: the routes are written to the sheet inside the loop, on its last
  iteration; the pull-forward pass then runs on what is left. Only the remaining shipments
  and the iteration counter are returned by the source; the state is returned whole here
  so that the local route list can be inspected.
\<close>

definition runPlanningLoop ::
  "nat \<Rightarrow> shipment list \<Rightarrow> carrier list \<Rightarrow> planningContext \<Rightarrow> planRow list \<Rightarrow> nat
   \<Rightarrow> planState option" where
  "runPlanningLoop fuel shipmentsToPlan availableCarriers ctx sheet startIteration =
     (case planningLoop fuel ctx
             \<lparr>unassigned = shipmentsToPlan, routes = [], carriers = availableCarriers,
              iteration = startIteration, planSheet = sheet\<rparr> of
        None \<Rightarrow> None
      | Some st \<Rightarrow>
          (case utilizePullForwardRequests (unassigned st) (carriers st) ctx of
             (finalUnassigned, routesCreated, cs) \<Rightarrow>
               Some (st\<lparr>unassigned := finalUnassigned, routes := routes st @ routesCreated,
                        carriers := cs\<rparr>)))"

section \<open>Overflow Handler\<close>

definition manualCarrier :: "string \<Rightarrow> carrier" where
  "manualCarrier n = \<lparr>name = n, costPerMile = 0, costPerRoute = 0, pallets36 = 0, pallets48 = 0,
                      pallets53 = 0, timeSlots = []\<rparr>"

definition overspillCarrier :: carrier where
  "overspillCarrier = \<lparr>name = ''Overspill'', costPerMile = 0, costPerRoute = 0, pallets36 = 18,
                        pallets48 = 22, pallets53 = 26, timeSlots = []\<rparr>"

fun firstFit :: "planningContext \<Rightarrow> shipment \<Rightarrow> route list \<Rightarrow> route list option" where
  "firstFit ctx shipment [] = None"
| "firstFit ctx shipment (rt # rest) =
     (if checkAndScoreInsertion shipment rt ctx \<noteq> None then Some (addStop rt shipment # rest)
      else map_option ((#) rt) (firstFit ctx shipment rest))"

definition packOverspill :: "planningContext \<Rightarrow> route list \<Rightarrow> shipment \<Rightarrow> route list" where
  "packOverspill ctx overspillRoutes shipment =
     (case firstFit ctx shipment overspillRoutes of
        Some rs \<Rightarrow> rs
      | None \<Rightarrow> overspillRoutes
                @ [\<lparr>carrier = overspillCarrier, time = ''23:00'', stops = [shipment],
                     totalPallets = pallets shipment, routeCluster = ''Overspill'', routeId = [],
                     routeNotes = [], seedAttempts = 0\<rparr>])"

definition planRemainingShipments ::
  "shipment list \<Rightarrow> planningContext \<Rightarrow> planRow list \<Rightarrow> planRow list" where
  "planRemainingShipments shipments ctx sheet =
     (let unplannableTime = filter (\<lambda>s. failureReason s = Some TimeConstraint) shipments;
          unplannableOther = filter (\<lambda>s. failureReason s \<noteq> None
                                         \<and> failureReason s \<noteq> Some TimeConstraint) shipments;
          overspillShipments = filter (\<lambda>s. failureReason s = None) shipments;
          sheet1 = (if unplannableTime \<noteq> []
                    then writeRouteToSheet
                           \<lparr>carrier = manualCarrier ''Unplannable (Time)'', time = [],
                            stops = unplannableTime,
                            totalPallets = sum_list (map pallets unplannableTime),
                            routeCluster = ''Manual Review'', routeId = ''Time_1'',
                            routeNotes = ''Failed due to delivery window constraints.'',
                            seedAttempts = 0\<rparr> sheet ctx
                    else sheet);
          sheet2 = (if unplannableOther \<noteq> []
                    then writeRouteToSheet
                           \<lparr>carrier = manualCarrier ''Unplannable (Other)'', time = [],
                            stops = unplannableOther,
                            totalPallets = sum_list (map pallets unplannableOther),
                            routeCluster = ''Manual Review'', routeId = ''Other_1'',
                            routeNotes = ''Failed planning after max attempts or no viable carrier.'',
                            seedAttempts = 0\<rparr> sheet1 ctx
                    else sheet1)
      in if overspillShipments = [] then sheet2
         else
           (let overspillRoutes = foldl (packOverspill ctx) [] (sortByPalletsDesc overspillShipments)
            in foldl (\<lambda>sh p. writeRouteToSheet
                                ((fst p)\<lparr>routeId := ''Overspill_'' @ showNat (snd p + 1)\<rparr>) sh ctx)
                 sheet2 (zip overspillRoutes [0..<length overspillRoutes])))"

text \<open>
  The planning part of \<open>generatePlan\<close>: the planning loop from iteration 1 on an empty
  sheet, then the overflow handler on the shipments it returned.
\<close>

definition generatePlan ::
  "nat \<Rightarrow> shipment list \<Rightarrow> carrier list \<Rightarrow> planningContext \<Rightarrow> planRow list option" where
  "generatePlan fuel shipments allCarriers ctx =
     (case runPlanningLoop fuel shipments allCarriers ctx [] 1 of
        None \<Rightarrow> None
      | Some st \<Rightarrow> Some (planRemainingShipments (unassigned st) ctx (planSheet st)))"

section \<open>Specification-side notions\<close>

text \<open>The penalty as the specification words it: the sum over the legs of \<open>(max(0, leg - t))\<^sup>2\<close>.\<close>

definition specPenalty :: "real list \<Rightarrow> real \<Rightarrow> real" where
  "specPenalty legs t = (\<Sum>d\<leftarrow>legs. (max 0 (d - t))\<^sup>2)"

text \<open>Consecutive pairs of a path.\<close>

definition pairs :: "'a list \<Rightarrow> ('a \<times> 'a) list" where
  "pairs xs = zip xs (tl xs)"

text \<open>The oracle lookup with the reverse-direction fallback.\<close>

definition lookupEither :: "distanceMatrix \<Rightarrow> store \<Rightarrow> store \<Rightarrow> leg option" where
  "lookupEither dm a b = (case dm a b of Some l \<Rightarrow> Some l | None \<Rightarrow> dm b a)"

text \<open>Distances of the legs between consecutive stores (depot legs excluded).\<close>

definition interStoreLegs :: "distanceMatrix \<Rightarrow> store list \<Rightarrow> real list" where
  "interStoreLegs dm us =
     map (\<lambda>(a, b). case lookupEither dm a b of Some l \<Rightarrow> distance l | None \<Rightarrow> 0) (pairs us)"

text \<open>
  Distances of all legs in the glossary's sense: depot to first stop, between consecutive
  stops, last stop to depot.
\<close>

definition allLegs :: "distanceMatrix \<Rightarrow> store \<Rightarrow> store list \<Rightarrow> real list" where
  "allLegs dm wh us = (if us = [] then [] else interStoreLegs dm (wh # us @ [wh]))"

text \<open>Forward-only contribution of a leg, zero when the entry is absent.\<close>

definition fwdDistance :: "distanceMatrix \<Rightarrow> store \<times> store \<Rightarrow> real" where
  "fwdDistance dm p = (case dm (fst p) (snd p) of None \<Rightarrow> 0 | Some l \<Rightarrow> distance l)"

definition fwdDuration :: "distanceMatrix \<Rightarrow> store \<times> store \<Rightarrow> real" where
  "fwdDuration dm p = (case dm (fst p) (snd p) of None \<Rightarrow> 0 | Some l \<Rightarrow> duration l)"

text \<open>The score as the specification states it, with the penalty taken over all legs of a
  sequence in the glossary's sense (depot legs included).\<close>

definition claimedScore :: "shipment \<Rightarrow> route \<Rightarrow> planningContext \<Rightarrow> real" where
  "claimedScore s rt ctx =
     (let dm = distanceMatrix ctx; wh = warehouse ctx;
          cur = advancedOptimizeStopOrder (stops rt) wh dm;
          prop = advancedOptimizeStopOrder (stops rt @ [s]) wh dm;
          newD = totalDistance (calculateRouteMetricsWithHOS prop wh dm (detailedDurations ctx));
          oldD = totalDistance (calculateRouteMetricsWithHOS cur wh dm (detailedDurations ctx))
      in (newD * costPerMile (carrier rt) + costPerRoute (carrier rt))
         - (oldD * costPerMile (carrier rt) + costPerRoute (carrier rt))
         + (specPenalty (allLegs dm wh (uniqueStores prop)) (preferredLegThreshold ctx)
            - specPenalty (allLegs dm wh (uniqueStores cur)) (preferredLegThreshold ctx)))"

text \<open>
  Auxiliary relations on the simulator's accumulators: \<open>accLe\<close> orders two runs by on-duty
  time corrected for the breaks taken, \<open>accBalanced\<close> says that on-duty time is stop time
  plus travel time plus the breaks.
\<close>

definition accLe :: "hosAcc \<Rightarrow> hosAcc \<Rightarrow> bool" where
  "accLe a a' = (accBreaks a \<le> accBreaks a'
                 \<and> accOnDuty a + 30 * (real (accBreaks a') - real (accBreaks a)) \<le> accOnDuty a'
                 \<and> accTravel a \<le> accTravel a')"

definition accBalanced :: "hosAcc \<Rightarrow> bool" where
  "accBalanced a = (accOnDuty a = accStop a + accTravel a + 30 * real (accBreaks a))"

definition lastOr :: "'a \<Rightarrow> 'a list \<Rightarrow> 'a" where
  "lastOr d xs = (if xs = [] then d else last xs)"

definition sequenceKeys :: "(store \<Rightarrow> bool) \<Rightarrow> store \<Rightarrow> distanceMatrix \<Rightarrow> store list \<Rightarrow> store list" where
  "sequenceKeys cold wh dm us =
     nnLoop dm wh (filter (\<lambda>k. \<not> cold k) (js_keys us))
     @ nnLoop dm (lastOr wh (nnLoop dm wh (filter (\<lambda>k. \<not> cold k) (js_keys us))))
         (filter cold (js_keys us))"

definition rowStores :: "planRow list \<Rightarrow> (string \<times> (store \<times> category) list) list" where
  "rowStores rows = map (\<lambda>r. (rowRouteId r, map (\<lambda>s. (store s, category s)) (rowStops r))) rows"

text \<open>A route after the tentative swap: the stop replaced and the pallet total recomputed.\<close>

definition swapped :: "route \<Rightarrow> nat \<Rightarrow> shipment \<Rightarrow> route" where
  "swapped rt i s = rt\<lparr>stops := (stops rt)[i := s],
                       totalPallets := sum_list (map pallets ((stops rt)[i := s]))\<rparr>"

text \<open>
  In a list, \<open>a\<close> comes before the first occurrence of \<open>b\<close>.
\<close>

definition precedes :: "'a list \<Rightarrow> 'a \<Rightarrow> 'a \<Rightarrow> bool" where
  "precedes xs a b = (b \<in> set xs \<and> a \<in> set (takeWhile (\<lambda>x. x \<noteq> b) xs))"

text \<open>
  The two limits on the final stop sequence of a stop list: every leg between two
  consecutive stores of the sequenced stops (depot legs excluded) is at most the effective
  hard leg limit, and the simulator's total mileage of the sequenced stops is at most
  \<open>MAX_ROUTE_MILEAGE\<close>.
\<close>

definition withinCaps :: "planningContext \<Rightarrow> shipment list \<Rightarrow> bool" where
  "withinCaps ctx ss =
     (let sequenced = advancedOptimizeStopOrder ss (warehouse ctx) (distanceMatrix ctx)
      in (\<forall>d\<in>set (interStoreLegs (distanceMatrix ctx) (uniqueStores sequenced)). d \<le> hardLegLimit ctx)
         \<and> totalDistance (calculateRouteMetricsWithHOS sequenced (warehouse ctx) (distanceMatrix ctx)
                            (detailedDurations ctx)) \<le> MAX_ROUTE_MILEAGE ctx)"

text \<open>
  A route is within the limits when its stop list is; store ids are non-empty strings
  in the planner's input (the leg check skips a leg with an empty store id).
\<close>

definition capped :: "planningContext \<Rightarrow> route \<Rightarrow> bool" where
  "capped ctx rt = ((\<forall>x\<in>set (stops rt). store x \<noteq> []) \<longrightarrow> withinCaps ctx (stops rt))"

section \<open>Example data\<close>

definition exCarrier :: carrier where
  "exCarrier = \<lparr>name = ''HB'', costPerMile = 2, costPerRoute = 100, pallets36 = 18, pallets48 = 22,
     pallets53 = 26, timeSlots = [\<lparr>slotTime = ''08:00'', capacity = 1, used = 0\<rparr>]\<rparr>"

definition mkLeg :: "real \<Rightarrow> real \<Rightarrow> leg option" where
  "mkLeg d t = Some \<lparr>distance = d, duration = t\<rparr>"

definition exMatrix :: distanceMatrix where
  "exMatrix a b =
     (if a = ''US0007'' \<and> b = ''S1'' then mkLeg 50 60
      else if a = ''S1'' \<and> b = ''US0007'' then mkLeg 50 60
      else if a = ''US0007'' \<and> b = ''S3'' then mkLeg 100 120
      else if a = ''S3'' \<and> b = ''US0007'' then mkLeg 100 120
      else if a = ''S1'' \<and> b = ''S3'' then mkLeg 70 80
      else if a = ''US0007'' \<and> b = ''S4'' then mkLeg 30 450
      else if a = ''S4'' \<and> b = ''US0007'' then mkLeg 30 16
      else None)"

text \<open>The same matrix with the entry from S3 to S1 filled in.\<close>

definition exMatrixFull :: distanceMatrix where
  "exMatrixFull a b = (if a = ''S3'' \<and> b = ''S1'' then mkLeg 70 80 else exMatrix a b)"

definition exCtx :: planningContext where
  "exCtx = \<lparr>restrictions = (\<lambda>_. None), detailedDurations = (\<lambda>_ _. None),
     distanceMatrix = exMatrix, warehouse = ''US0007'', OVERPLAN_FACTOR = 1,
     MAX_ROUTE_MILEAGE = 425, MAX_STOPS_GENERAL = 5, MAX_DISTANCE_BETWEEN_STOPS = 60,
     ABSOLUTE_MAX_DISTANCE_BETWEEN_STOPS = 75, ALLOW_ALL_ALL = True, SMALL_AMBIENT_THRESHOLD = 6,
     MIN_PALLETS_PER_ROUTE = 20, MAX_PLANNING_ATTEMPTS = 5, RELAX_MIN_ATTEMPTS = 4,
     RELAX_MIN_FACTOR = 8 / 10, CLUSTER_FAILURE_THRESHOLD = 3\<rparr>"

definition mkShipment :: "store \<Rightarrow> category \<Rightarrow> real \<Rightarrow> shipment" where
  "mkShipment st c p = \<lparr>store = st, category = c, pallets = p, productTypeId = None,
     cluster = ''Others'', attempts = 0, insertionFailures = 0, failureReason = None\<rparr>"

definition mkRoute :: "shipment list \<Rightarrow> route" where
  "mkRoute ss = \<lparr>carrier = exCarrier, time = ''08:00'', stops = ss,
     totalPallets = sum_list (map pallets ss), routeCluster = ''Others'', routeId = [],
     routeNotes = [], seedAttempts = 0\<rparr>"

definition exTie :: distanceMatrix where
  "exTie a b =
     (if a = ''US0007'' \<and> b \<in> {''7'', ''12'', ''B''} then mkLeg 10 10
      else if a = ''US0007'' \<and> b = ''A'' then mkLeg 20 20
      else None)"

definition exStar :: distanceMatrix where
  "exStar a b =
     (if a = b then None
      else if a = ''US0007'' \<or> b = ''US0007'' then mkLeg 20 20
      else mkLeg 10 10)"

definition exCtxTwoStops :: planningContext where
  "exCtxTwoStops = exCtx\<lparr>distanceMatrix := exStar, MAX_STOPS_GENERAL := 2\<rparr>"



definition inCluster :: "string \<Rightarrow> shipment \<Rightarrow> shipment" where
  "inCluster c s = s\<lparr>cluster := c\<rparr>"

definition exRouteX :: route where
  "exRouteX = mkRoute [inCluster ''X'' (mkShipment ''A'' Ambient 5),
                       inCluster ''Y'' (mkShipment ''B'' Ambient 5)]"

definition exRouteY :: route where
  "exRouteY = mkRoute [inCluster ''Y'' (mkShipment ''C'' Ambient 5),
                       inCluster ''X'' (mkShipment ''D'' Ambient 5)]"

text \<open>Two stops whose stores are both 10 miles from the depot in \<open>exTie\<close>.\<close>

definition exTiePair :: "shipment list" where
  "exTiePair = [mkShipment ''12'' Ambient 2, mkShipment ''7'' Ambient 4]"



text \<open>Five locations 10 miles apart, except stores A and B, which are 80 miles apart.\<close>

definition exSwap :: distanceMatrix where
  "exSwap a b =
     (if a = b then None
      else if (a = ''A'' \<and> b = ''B'') \<or> (a = ''B'' \<and> b = ''A'') then mkLeg 80 80
      else mkLeg 10 10)"

definition exCtxSwap :: planningContext where
  "exCtxSwap = exCtx\<lparr>distanceMatrix := exSwap, MAX_STOPS_GENERAL := 2\<rparr>"

definition exRouteAC :: route where
  "exRouteAC = mkRoute [inCluster ''X'' (mkShipment ''A'' Ambient 5),
                        inCluster ''Y'' (mkShipment ''C'' Ambient 5)]"

definition exRouteDB :: route where
  "exRouteDB = mkRoute [inCluster ''Y'' (mkShipment ''D'' Ambient 5),
                        inCluster ''X'' (mkShipment ''B'' Ambient 5)]"

section \<open>Helper lemmas\<close>

lemma scorer_accepts:
  assumes "checkAndScoreInsertion s rt ctx = Some v"
  shows "tempCheck ctx (stops rt @ [s])"
    and "\<not> hasMissingData (getLegDistanceDetails
            (advancedOptimizeStopOrder (stops rt) (warehouse ctx) (distanceMatrix ctx)) (distanceMatrix ctx))"
    and "\<not> hasMissingData (getLegDistanceDetails
            (advancedOptimizeStopOrder (stops rt @ [s]) (warehouse ctx) (distanceMatrix ctx)) (distanceMatrix ctx))"
    and "maxLeg (legDistances (getLegDistanceDetails
            (advancedOptimizeStopOrder (stops rt @ [s]) (warehouse ctx) (distanceMatrix ctx)) (distanceMatrix ctx)))
         \<le> hardLegLimit ctx"
    and "totalDistance (calculateRouteMetricsWithHOS
            (advancedOptimizeStopOrder (stops rt @ [s]) (warehouse ctx) (distanceMatrix ctx))
            (warehouse ctx) (distanceMatrix ctx) (detailedDurations ctx)) \<le> MAX_ROUTE_MILEAGE ctx"
    and "hosStatus (calculateRouteMetricsWithHOS
            (advancedOptimizeStopOrder (stops rt @ [s]) (warehouse ctx) (distanceMatrix ctx))
            (warehouse ctx) (distanceMatrix ctx) (detailedDurations ctx)) = OK"
    and "v = (totalDistance (calculateRouteMetricsWithHOS
                (advancedOptimizeStopOrder (stops rt @ [s]) (warehouse ctx) (distanceMatrix ctx))
                (warehouse ctx) (distanceMatrix ctx) (detailedDurations ctx)) * costPerMile (carrier rt)
              + costPerRoute (carrier rt)
              - (totalDistance (calculateRouteMetricsWithHOS
                   (advancedOptimizeStopOrder (stops rt) (warehouse ctx) (distanceMatrix ctx))
                   (warehouse ctx) (distanceMatrix ctx) (detailedDurations ctx)) * costPerMile (carrier rt)
                 + costPerRoute (carrier rt)))
             + (calculateDistancePenalty (legDistances (getLegDistanceDetails
                   (advancedOptimizeStopOrder (stops rt @ [s]) (warehouse ctx) (distanceMatrix ctx))
                   (distanceMatrix ctx))) (preferredLegThreshold ctx)
                - calculateDistancePenalty (legDistances (getLegDistanceDetails
                   (advancedOptimizeStopOrder (stops rt) (warehouse ctx) (distanceMatrix ctx))
                   (distanceMatrix ctx))) (preferredLegThreshold ctx))"
  using assms unfolding checkAndScoreInsertion_def Let_def
  by (simp_all split: if_splits)

lemma storeCount_absent:
  "c \<notin> category ` set ss \<Longrightarrow> storeCount ss st c = 0"
proof -
  assume "c \<notin> category ` set ss"
  then have "filter (\<lambda>s. store s = st \<and> category s = c) ss = []"
    by (auto simp: filter_empty_conv)
  then show ?thesis by (simp add: storeCount_def)
qed

lemma num_or_nonzero: "b \<noteq> 0 \<Longrightarrow> num_or (num_or a b) c = num_or a b"
  by (simp add: num_or_def)

lemma tempCheck_freezer:
  assumes "tempCheck ctx ss"
  shows "\<not> (Freezer \<in> category ` set ss
            \<and> (Chiller \<in> category ` set ss \<or> Ambient \<in> category ` set ss
                \<or> Produce \<in> category ` set ss))"
  using assms unfolding tempCheck_def isTempCompatible_def Let_def
  by (auto split: if_splits)

lemma tempCheck_mixed:
  assumes "tempCheck ctx ss" and "ALLOW_ALL_ALL ctx" and "st \<in> set (uniqueStores ss)"
  shows "storeCount ss st Chiller \<le> 0
         \<or> storeCount ss st Ambient + storeCount ss st Produce
             \<le> num_or (SMALL_AMBIENT_THRESHOLD ctx) 4"
proof (cases "Freezer \<in> category ` set ss")
  case True
  with assms(1) have "Chiller \<notin> category ` set ss"
    using tempCheck_freezer by blast
  then show ?thesis by (simp add: storeCount_absent)
next
  case False
  with assms(1,2) have
    "list_all (\<lambda>(storeId, counts).
        \<not> (counts Chiller > 0 \<and> counts Ambient + counts Produce > num_or (SMALL_AMBIENT_THRESHOLD ctx) 4))
       (perStoreCounts ss)"
    unfolding tempCheck_def isTempCompatible_def Let_def
    by (simp add: num_or_nonzero)
  with assms(3) show ?thesis
    by (auto simp: perStoreCounts_def list_all_iff not_less)
qed


lemma pairs_Cons2 [simp]: "pairs (x # y # zs) = (x, y) # pairs (y # zs)"
  by (simp add: pairs_def)

lemma pairs_short [simp]: "pairs [] = []" "pairs [x] = []"
  by (simp_all add: pairs_def)

lemma pairs_snoc: "xs \<noteq> [] \<Longrightarrow> pairs (xs @ [y]) = pairs xs @ [(last xs, y)]"
proof (induction xs rule: induct_list012)
  case (3 x y zs)
  then show ?case by simp
qed simp_all

lemma legLoop_missing:
  assumes "(a, b) \<in> set (pairs us)" and "lookupEither dm a b = None" and "\<forall>u\<in>set us. u \<noteq> []"
  shows "hasMissingData (legLoop dm us acc)"
  using assms
proof (induction dm us acc rule: legLoop.induct)
  case (1 dm "from" to rest acc)
  from "1.prems"(3) have ne: "\<not> (from = [] \<or> to = [])" "\<forall>u\<in>set (to # rest). u \<noteq> []" by auto
  show ?case
  proof (cases "case dm from to of Some l \<Rightarrow> Some l | None \<Rightarrow> dm to from")
    case None
    with ne show ?thesis by simp
  next
    case (Some l)
    with "1.prems"(1,2) have "(a, b) \<in> set (pairs (to # rest))"
      by (auto simp: lookupEither_def)
    with "1.IH"(2) [OF ne(1) Some] "1.prems"(2) ne(2)
    have "hasMissingData (legLoop dm (to # rest) (acc @ [distance l]))" by blast
    with Some ne show ?thesis by simp
  qed
qed simp_all

lemma legLoop_distances:
  assumes "\<forall>u\<in>set us. u \<noteq> []" and "\<not> hasMissingData (legLoop dm us acc)"
  shows "legDistances (legLoop dm us acc) = acc @ interStoreLegs dm us"
  using assms
proof (induction dm us acc rule: legLoop.induct)
  case (1 dm "from" to rest acc)
  from "1.prems"(1) have ne: "\<not> (from = [] \<or> to = [])" "\<forall>u\<in>set (to # rest). u \<noteq> []" by auto
  show ?case
  proof (cases "case dm from to of Some l \<Rightarrow> Some l | None \<Rightarrow> dm to from")
    case None
    with "1.prems"(2) ne show ?thesis by simp
  next
    case (Some l)
    with "1.prems"(2) ne have "\<not> hasMissingData (legLoop dm (to # rest) (acc @ [distance l]))"
      by simp
    with "1.IH"(2) [OF ne(1) Some] ne(2)
    have "legDistances (legLoop dm (to # rest) (acc @ [distance l]))
          = (acc @ [distance l]) @ interStoreLegs dm (to # rest)"
      by blast
    with Some ne show ?thesis by (simp add: interStoreLegs_def lookupEither_def)
  qed
qed (simp_all add: interStoreLegs_def)

lemma pairs_length: "(a, b) \<in> set (pairs us) \<Longrightarrow> 2 \<le> length us"
  by (induction us rule: induct_list012) simp_all

lemma uniq_set [simp]: "set (uniq xs) = set xs"
  by (simp add: uniq_def)

lemma uniqueStores_set [simp]: "set (uniqueStores ss) = store ` set ss"
  by (simp add: uniqueStores_def)

lemma getLeg_missing:
  assumes "(a, b) \<in> set (pairs (uniqueStores ss))" and "dm a b = None" and "dm b a = None"
    and "\<forall>x\<in>set ss. store x \<noteq> []"
  shows "hasMissingData (getLegDistanceDetails ss dm)"
proof -
  from assms(1) have len: "2 \<le> length (uniqueStores ss)" by (rule pairs_length)
  then have "ss \<noteq> []" by (auto simp: uniqueStores_def uniq_def)
  moreover from assms(2,3) have "lookupEither dm a b = None" by (simp add: lookupEither_def)
  moreover from assms(4) have "\<forall>u\<in>set (uniqueStores ss). u \<noteq> []" by auto
  ultimately show ?thesis
    using len assms(1) by (simp add: getLegDistanceDetails_def legLoop_missing)
qed

lemma getLeg_distances:
  assumes "\<forall>x\<in>set ss. store x \<noteq> []" and "\<not> hasMissingData (getLegDistanceDetails ss dm)"
  shows "legDistances (getLegDistanceDetails ss dm) = interStoreLegs dm (uniqueStores ss)"
proof (cases "ss = [] \<or> length (uniqueStores ss) < 2")
  case True
  then have "pairs (uniqueStores ss) = []"
    by (cases "uniqueStores ss"; cases "tl (uniqueStores ss)") (auto simp: uniqueStores_def uniq_def)
  with True show ?thesis by (auto simp: getLegDistanceDetails_def interStoreLegs_def)
next
  case False
  moreover from assms(1) have "\<forall>u\<in>set (uniqueStores ss). u \<noteq> []" by auto
  ultimately show ?thesis
    using assms(2) legLoop_distances [where us = "uniqueStores ss" and dm = dm and acc = "[]"]
    by (simp add: getLegDistanceDetails_def)
qed

lemma advancedOptimize_subset: "set (advancedOptimizeStopOrder ss wh dm) \<subseteq> set ss"
  by (auto simp: advancedOptimizeStopOrder_def)

lemma penalty_fold:
  "foldl (\<lambda>penalty d. if d \<le> t then penalty else penalty + (d - t) * (d - t)) acc legs
   = acc + specPenalty legs t"
proof (induction legs arbitrary: acc)
  case Nil
  show ?case by (simp add: specPenalty_def)
next
  case (Cons d legs)
  have "(max 0 (d - t))\<^sup>2 = (if d \<le> t then 0 else (d - t) * (d - t))"
    by (simp add: max_def power2_eq_square)
  with Cons show ?case by (simp add: specPenalty_def)
qed

lemma penalty_refines: "calculateDistancePenalty legs t = specPenalty legs t"
  by (simp add: calculateDistancePenalty_def penalty_fold) (simp add: specPenalty_def)




lemma accrueLeg_fields:
  "accTravel (accrueLeg (dm x y) a) = accTravel a + fwdDuration dm (x, y)"
  "accDistance (accrueLeg (dm x y) a) = accDistance a + fwdDistance dm (x, y)"
  "accStop (accrueLeg lg a) = accStop a"
  "accLocation (accrueLeg lg a) = accLocation a"
  by (simp_all add: accrueLeg_def fwdDuration_def fwdDistance_def Let_def split: option.splits)

lemma visitStore_fields:
  "accTravel (visitStore dm dd os a st) = accTravel a + fwdDuration dm (accLocation a, st)"
  "accDistance (visitStore dm dd os a st) = accDistance a + fwdDistance dm (accLocation a, st)"
  "accLocation (visitStore dm dd os a st) = st"
  by (simp_all add: visitStore_def Let_def accrueLeg_fields)

lemma foldl_visit_fields:
  "accTravel (foldl (visitStore dm dd os) a us)
     = accTravel a + sum_list (map (fwdDuration dm) (pairs (accLocation a # us)))
   \<and> accDistance (foldl (visitStore dm dd os) a us)
     = accDistance a + sum_list (map (fwdDistance dm) (pairs (accLocation a # us)))
   \<and> accLocation (foldl (visitStore dm dd os) a us) = last (accLocation a # us)"
proof (induction us arbitrary: a)
  case Nil
  show ?case by simp
next
  case (Cons u us)
  show ?case
    using Cons.IH [of "visitStore dm dd os a u"]
    by (simp add: visitStore_fields)
qed

lemma hosRun_sums:
  "accTravel (hosRun ss wh dm dd)
     = sum_list (map (fwdDuration dm) (pairs (wh # uniqueStores ss @ [wh])))"
  "accDistance (hosRun ss wh dm dd)
     = sum_list (map (fwdDistance dm) (pairs (wh # uniqueStores ss @ [wh])))"
proof -
  let ?a = "foldl (visitStore dm dd ss) (hosStart dd ss wh) (uniqueStores ss)"
  have s: "accTravel (hosStart dd ss wh) = 0" "accDistance (hosStart dd ss wh) = 0"
    "accLocation (hosStart dd ss wh) = wh"
    by (simp_all add: hosStart_def Let_def)
  have p: "pairs (wh # uniqueStores ss @ [wh])
           = pairs (wh # uniqueStores ss) @ [(last (wh # uniqueStores ss), wh)]"
    using pairs_snoc [of "wh # uniqueStores ss" wh] by simp
  show "accTravel (hosRun ss wh dm dd)
     = sum_list (map (fwdDuration dm) (pairs (wh # uniqueStores ss @ [wh])))"
    using foldl_visit_fields [of dm dd ss "hosStart dd ss wh" "uniqueStores ss"]
    by (simp add: hosRun_def Let_def accrueLeg_fields s p)
  show "accDistance (hosRun ss wh dm dd)
     = sum_list (map (fwdDistance dm) (pairs (wh # uniqueStores ss @ [wh])))"
    using foldl_visit_fields [of dm dd ss "hosStart dd ss wh" "uniqueStores ss"]
    by (simp add: hosRun_def Let_def accrueLeg_fields s p)
qed

lemma accrueLeg_balanced: "accBalanced a \<Longrightarrow> accBalanced (accrueLeg lg a)"
  by (auto simp: accBalanced_def accrueLeg_def Let_def split: option.splits)

lemma visitStore_balanced: "accBalanced a \<Longrightarrow> accBalanced (visitStore dm dd os a st)"
  using accrueLeg_balanced [of a "dm (accLocation a) st"]
  by (simp add: visitStore_def Let_def accBalanced_def)

lemma foldl_visit_balanced:
  "accBalanced a \<Longrightarrow> accBalanced (foldl (visitStore dm dd os) a us)"
  by (induction us arbitrary: a) (simp_all add: visitStore_balanced)

lemma hosRun_balanced: "accBalanced (hosRun ss wh dm dd)"
proof -
  have "accBalanced (hosStart dd ss wh)" by (simp add: accBalanced_def hosStart_def Let_def)
  then show ?thesis
    by (simp add: hosRun_def Let_def accrueLeg_balanced foldl_visit_balanced)
qed

lemma accrueLeg_mono:
  assumes "accLe a a'"
    and "lg = lg' \<or> (lg = None \<and> (\<exists>l. lg' = Some l \<and> 0 \<le> duration l))"
  shows "accLe (accrueLeg lg a) (accrueLeg lg' a')"
  using assms
  by (auto simp: accLe_def accrueLeg_def Let_def algebra_simps split: option.splits)

lemma visitStore_mono:
  assumes "accLe a a'" and "accLocation a = accLocation a'"
    and "timeAtStop dd os st \<le> timeAtStop dd os' st"
    and "dm (accLocation a) st = dm' (accLocation a) st
         \<or> (dm (accLocation a) st = None
             \<and> (\<exists>l. dm' (accLocation a) st = Some l \<and> 0 \<le> duration l))"
  shows "accLe (visitStore dm dd os a st) (visitStore dm' dd os' a' st)"
proof -
  have "accLe (accrueLeg (dm (accLocation a) st) a) (accrueLeg (dm' (accLocation a') st) a')"
    using assms(1,2,4) by (intro accrueLeg_mono) auto
  with assms(3) show ?thesis
    by (simp add: visitStore_def Let_def accLe_def)
qed

lemma foldl_visit_mono:
  assumes "\<forall>st. timeAtStop dd os st \<le> timeAtStop dd os' st"
    and "\<forall>x y. dm x y = dm' x y \<or> (dm x y = None \<and> (\<exists>l. dm' x y = Some l \<and> 0 \<le> duration l))"
    and "accLe a a'" and "accLocation a = accLocation a'"
  shows "accLe (foldl (visitStore dm dd os) a us) (foldl (visitStore dm' dd os') a' us)"
  using assms(3,4)
proof (induction us arbitrary: a a')
  case Nil
  then show ?case by simp
next
  case (Cons u us)
  have "accLe (visitStore dm dd os a u) (visitStore dm' dd os' a' u)"
    using Cons.prems assms(1,2) by (intro visitStore_mono) auto
  moreover have "accLocation (visitStore dm dd os a u) = accLocation (visitStore dm' dd os' a' u)"
    by (simp add: visitStore_fields)
  ultimately show ?case using Cons.IH by simp
qed

lemma accLe_onDuty: "accLe a a' \<Longrightarrow> accOnDuty a \<le> accOnDuty a'"
proof -
  assume h: "accLe a a'"
  then have "0 \<le> 30 * (real (accBreaks a') - real (accBreaks a))" by (simp add: accLe_def)
  with h show ?thesis by (simp add: accLe_def)
qed

lemma js_round_mono: "x \<le> y \<Longrightarrow> js_round x \<le> js_round y"
  by (simp add: js_round_def floor_mono)

lemma uniq_snoc: "uniq (xs @ [x]) = (if x \<in> set xs then uniq xs else uniq xs @ [x])"
  by (simp add: uniq_def)

lemma uniqueStores_snoc:
  "uniqueStores (ss @ [s]) = (if store s \<in> store ` set ss then uniqueStores ss
                              else uniqueStores ss @ [store s])"
  by (simp add: uniqueStores_def uniq_snoc)

lemma timeAtStop_snoc:
  "timeAtStop dd (ss @ [s]) st
     = timeAtStop dd ss st + (if store s = st then unloadingTime dd s else 0)"
  by (simp add: timeAtStop_def)

lemma timeAtStop_absent: "st \<notin> store ` set ss \<Longrightarrow> timeAtStop dd ss st = 0"
proof -
  assume "st \<notin> store ` set ss"
  then have "filter (\<lambda>s. store s = st) ss = []" by (auto simp: filter_empty_conv)
  then show ?thesis by (simp add: timeAtStop_def)
qed

lemma hosStart_mono:
  "0 \<le> loadingTime dd s \<Longrightarrow> accLe (hosStart dd ss wh) (hosStart dd (ss @ [s]) wh)"
  by (simp add: accLe_def hosStart_def Let_def)

lemma accLe_breaks:
  "accLe a a' \<Longrightarrow> real (accBreaks a') = real (accBreaks a)
                    \<or> real (accBreaks a) + 1 \<le> real (accBreaks a')"
proof -
  assume "accLe a a'"
  then have "accBreaks a \<le> accBreaks a'" by (simp add: accLe_def)
  then have "accBreaks a' = accBreaks a \<or> Suc (accBreaks a) \<le> accBreaks a'" by auto
  then show ?thesis
  proof
    assume "accBreaks a' = accBreaks a"
    then show ?thesis by simp
  next
    assume "Suc (accBreaks a) \<le> accBreaks a'"
    then have "real (Suc (accBreaks a)) \<le> real (accBreaks a')" by (simp only: of_nat_le_iff)
    then show ?thesis by simp
  qed
qed

lemma detour_onDuty:
  assumes "accLe a a'" and "0 \<le> u"
    and "fwdDuration dm (x, wh) \<le> duration d1 + duration d2"
  shows "accOnDuty (accrueLeg (dm x wh) a)
         \<le> accOnDuty (accrueLeg (Some d2)
              ((accrueLeg (Some d1) a')\<lparr>accStop := accStop (accrueLeg (Some d1) a') + u,
                 accOnDuty := accOnDuty (accrueLeg (Some d1) a') + u, accLocation := n\<rparr>))"
proof -
  define X where "X = accOnDuty a"
  define X' where "X' = accOnDuty a'"
  define B where "B = real (accBreaks a)"
  define B' where "B' = real (accBreaks a')"
  define r where "r = fwdDuration dm (x, wh)"
  define e1 where "e1 = duration d1"
  define e2 where "e2 = duration d2"
  have c: "B' = B \<or> B + 1 \<le> B'"
    using accLe_breaks [OF assms(1)] by (simp add: B_def B'_def)
  have h: "X + 30 * (B' - B) \<le> X'"
    using assms(1) by (simp add: accLe_def X_def X'_def B_def B'_def)
  have tri: "r \<le> e1 + e2" using assms(3) by (simp add: r_def e1_def e2_def)
  have lhs: "accOnDuty (accrueLeg (dm x wh) a)
             \<le> X + r + (if X + r > (B + 1) * 480 then 30 else 0)"
    by (auto simp: accrueLeg_def Let_def fwdDuration_def X_def B_def r_def split: option.splits)
  let ?y1 = "X' + (if X' + e1 > (B' + 1) * 480 then 30 else 0) + e1 + u"
  let ?b1 = "B' + (if X' + e1 > (B' + 1) * 480 then 1 else 0)"
  have rhs: "accOnDuty (accrueLeg (Some d2)
              ((accrueLeg (Some d1) a')\<lparr>accStop := accStop (accrueLeg (Some d1) a') + u,
                 accOnDuty := accOnDuty (accrueLeg (Some d1) a') + u, accLocation := n\<rparr>))
             = ?y1 + (if ?y1 + e2 > (?b1 + 1) * 480 then 30 else 0) + e2"
    by (simp add: accrueLeg_def Let_def X'_def B'_def e1_def e2_def)
  have "X + r + (if X + r > (B + 1) * 480 then 30 else 0)
        \<le> ?y1 + (if ?y1 + e2 > (?b1 + 1) * 480 then 30 else 0) + e2"
    using c h tri assms(2) by (auto split: if_splits)
  with lhs rhs show ?thesis by simp
qed

lemma detour_travel:
  assumes "accLe a a'"
    and "fwdDuration dm (x, wh) \<le> duration d1 + duration d2"
  shows "accTravel (accrueLeg (dm x wh) a)
         \<le> accTravel (accrueLeg (Some d2)
              ((accrueLeg (Some d1) a')\<lparr>accStop := accStop (accrueLeg (Some d1) a') + u,
                 accOnDuty := accOnDuty (accrueLeg (Some d1) a') + u, accLocation := n\<rparr>))"
  using assms
  by (auto simp: accLe_def accrueLeg_def Let_def fwdDuration_def algebra_simps split: option.splits)

lemma dec_snoc: "dec (s @ [c]) = 10 * dec s + digit_val c"
  by (simp add: dec_def)

lemma digit_val_range: "is_digit c \<Longrightarrow> 0 \<le> digit_val c \<and> digit_val c \<le> 9"
  by (simp add: is_digit_def digit_val_def)

lemma digit_val_inj: "digit_val c = digit_val d \<Longrightarrow> c = d"
  by (simp add: digit_val_def)

lemma digit_val_zero: "digit_val c = 0 \<Longrightarrow> c = CHR ''0''"
proof -
  assume "digit_val c = 0"
  then have "digit_val c = digit_val CHR ''0''" by (simp add: digit_val_def)
  then show ?thesis by (rule digit_val_inj)
qed

lemma dec_nonneg: "list_all is_digit s \<Longrightarrow> 0 \<le> dec s"
proof (induction s rule: rev_induct)
  case Nil
  show ?case by (simp add: dec_def)
next
  case (snoc c s)
  then have "0 \<le> dec s" "0 \<le> digit_val c" using digit_val_range by auto
  then show ?case by (simp add: dec_snoc)
qed

lemma dec_pos:
  "list_all is_digit s \<Longrightarrow> s \<noteq> [] \<Longrightarrow> hd s \<noteq> CHR ''0'' \<Longrightarrow> 0 < dec s"
proof (induction s rule: rev_induct)
  case Nil
  then show ?case by simp
next
  case (snoc c s)
  from snoc.prems(1) have dc: "0 \<le> digit_val c" using digit_val_range by auto
  show ?case
  proof (cases "s = []")
    case True
    with snoc.prems(3) have "digit_val c \<noteq> 0" using digit_val_zero by auto
    with dc True show ?thesis by (simp add: dec_def)
  next
    case False
    with snoc have "0 < dec s" by simp
    with dc show ?thesis by (simp add: dec_snoc)
  qed
qed

lemma dec_inj_nz:
  "list_all is_digit s \<Longrightarrow> list_all is_digit t \<Longrightarrow> (s \<noteq> [] \<longrightarrow> hd s \<noteq> CHR ''0'')
   \<Longrightarrow> (t \<noteq> [] \<longrightarrow> hd t \<noteq> CHR ''0'') \<Longrightarrow> dec s = dec t \<Longrightarrow> s = t"
proof (induction s arbitrary: t rule: rev_induct)
  case Nil
  show ?case
  proof (cases "t = []")
    case False
    with Nil have "0 < dec t" by (intro dec_pos) auto
    with Nil.prems(5) show ?thesis by (simp add: dec_def)
  qed simp
next
  case (snoc c s)
  show ?case
  proof (cases t rule: rev_cases)
    case Nil
    from snoc.prems(1,3) have "0 < dec (s @ [c])" by (intro dec_pos) auto
    with snoc.prems(5) Nil show ?thesis by (simp add: dec_def)
  next
    case (snoc t' d)
    from snoc.prems(1) have rc: "0 \<le> digit_val c" "digit_val c \<le> 9"
      using digit_val_range by auto
    from snoc.prems(2) snoc have rd: "0 \<le> digit_val d" "digit_val d \<le> 9"
      using digit_val_range by auto
    from snoc.prems(5) snoc have "10 * dec s + digit_val c = 10 * dec t' + digit_val d"
      by (simp add: dec_snoc)
    with rc rd have e: "dec s = dec t'" "digit_val c = digit_val d" by presburger+
    have "s = t'"
    proof (rule snoc.IH)
      show "list_all is_digit s" using snoc.prems(1) by simp
      show "list_all is_digit t'" using snoc.prems(2) snoc by simp
      show "s \<noteq> [] \<longrightarrow> hd s \<noteq> CHR ''0''" using snoc.prems(3) by auto
      show "t' \<noteq> [] \<longrightarrow> hd t' \<noteq> CHR ''0''" using snoc.prems(4) snoc by auto
      show "dec s = dec t'" by (rule e)
    qed
    with e(2) snoc show ?thesis by (simp add: digit_val_inj)
  qed
qed

lemma dec_inj_index: "isArrayIndex s \<Longrightarrow> isArrayIndex t \<Longrightarrow> dec s = dec t \<Longrightarrow> s = t"
proof -
  assume s: "isArrayIndex s" and t: "isArrayIndex t" and e: "dec s = dec t"
  have z: "dec ''0'' = 0" by (simp add: dec_def digit_val_def)
  show ?thesis
  proof (cases "s = ''0''")
    case True
    show ?thesis
    proof (cases "t = ''0''")
      case False
      with t have "0 < dec t" by (intro dec_pos) (auto simp: isArrayIndex_def)
      with e True z show ?thesis by simp
    qed (simp add: True)
  next
    case False
    with s have ps: "0 < dec s" by (intro dec_pos) (auto simp: isArrayIndex_def)
    show ?thesis
    proof (cases "t = ''0''")
      case True
      with e z ps show ?thesis by simp
    next
      case nt: False
      from s t False nt e show ?thesis
        by (intro dec_inj_nz) (auto simp: isArrayIndex_def)
    qed
  qed
qed

lemma filter_eq_single: "distinct xs \<Longrightarrow> k \<in> set xs \<Longrightarrow> filter (\<lambda>x. k = x) xs = [k]"
proof (induction xs)
  case Nil
  then show ?case by simp
next
  case (Cons a xs)
  show ?case
  proof (cases "k = a")
    case True
    with Cons.prems have "filter (\<lambda>x. k = x) xs = []" by (auto simp: filter_empty_conv)
    with True show ?thesis by simp
  next
    case False
    with Cons show ?thesis by simp
  qed
qed

lemma sort_key_perm_inj:
  assumes "mset xs = mset ys" and "inj_on f (set xs)" and "distinct xs"
  shows "sort_key f xs = sort_key f ys"
proof (rule properties_for_sort_key [symmetric])
  show "mset (sort_key f xs) = mset ys" using assms(1) by simp
  show "sorted (map f (sort_key f xs))" by simp
next
  fix k
  assume "k \<in> set (sort_key f xs)"
  then have k: "k \<in> set xs" by simp
  have sy: "set ys = set xs" using assms(1) by (metis mset_eq_setD)
  have dy: "distinct ys" using assms(1,3) by (metis mset_eq_imp_distinct_iff)
  have a: "filter (\<lambda>x. f k = f x) xs = [k]"
  proof -
    have "filter (\<lambda>x. f k = f x) xs = filter (\<lambda>x. k = x) xs"
      using k assms(2) by (intro filter_cong) (auto simp: inj_on_def)
    also have "\<dots> = [k]" using k assms(3) by (simp add: filter_eq_single)
    finally show ?thesis .
  qed
  have b: "filter (\<lambda>x. f k = f x) ys = [k]"
  proof -
    have "filter (\<lambda>x. f k = f x) ys = filter (\<lambda>x. k = x) ys"
      using k assms(2) sy by (intro filter_cong) (auto simp: inj_on_def)
    also have "\<dots> = [k]" using k sy dy by (simp add: filter_eq_single)
    finally show ?thesis .
  qed
  have "filter (\<lambda>x. f k = f x) (sort_key f xs) = sort_key f (filter (\<lambda>x. f k = f x) xs)"
    by (rule filter_sort)
  also have "\<dots> = [k]" by (simp add: a)
  finally show "filter (\<lambda>x. f k = f x) (sort_key f xs) = filter (\<lambda>x. f k = f x) ys"
    using b by simp
qed

lemma nearestLoop_None:
  "nearestLoop dm c xs i best = None \<longleftrightarrow> best = None \<and> (\<forall>x\<in>set xs. dm c x = None)"
  by (induction xs arbitrary: i best) (auto split: option.splits if_splits)

lemma nearestLoop_lower:
  "nearestLoop dm c xs i best = Some (d, j) \<Longrightarrow>
   (\<forall>x\<in>set xs. \<forall>l. dm c x = Some l \<longrightarrow> d \<le> distance l)
   \<and> (\<forall>d0 j0. best = Some (d0, j0) \<longrightarrow> d \<le> d0)"
proof (induction xs arbitrary: i best)
  case Nil
  then show ?case by simp
next
  case (Cons x xs)
  let ?best' = "case dm c x of None \<Rightarrow> best
        | Some l \<Rightarrow> (case best of None \<Rightarrow> Some (distance l, i)
                    | Some (nearestDist, nearestIndex) \<Rightarrow>
                        if distance l < nearestDist then Some (distance l, i) else best)"
  from Cons.prems have r: "nearestLoop dm c xs (Suc i) ?best' = Some (d, j)" by simp
  note ih = Cons.IH [OF r]
  have a: "\<forall>l. dm c x = Some l \<longrightarrow> d \<le> distance l"
    using ih by (auto split: option.splits if_splits)
  have b: "\<forall>d0 j0. best = Some (d0, j0) \<longrightarrow> d \<le> d0"
    using ih by (auto split: option.splits if_splits)
  from a b ih show ?case by simp
qed

lemma nearestLoop_origin:
  "nearestLoop dm c xs i best = Some (d, j) \<Longrightarrow>
   best = Some (d, j)
   \<or> (i \<le> j \<and> j < i + length xs
       \<and> (\<exists>l. dm c (xs ! (j - i)) = Some l \<and> distance l = d)
       \<and> (\<forall>d0 j0. best = Some (d0, j0) \<longrightarrow> d < d0)
       \<and> (\<forall>k<j - i. \<forall>l. dm c (xs ! k) = Some l \<longrightarrow> d < distance l))"
proof (induction xs arbitrary: i best)
  case Nil
  then show ?case by simp
next
  case (Cons x xs)
  let ?best' = "case dm c x of None \<Rightarrow> best
        | Some l \<Rightarrow> (case best of None \<Rightarrow> Some (distance l, i)
                    | Some (nearestDist, nearestIndex) \<Rightarrow>
                        if distance l < nearestDist then Some (distance l, i) else best)"
  from Cons.prems have r: "nearestLoop dm c xs (Suc i) ?best' = Some (d, j)" by simp
  from Cons.IH [OF r] show ?case
  proof
    assume e: "?best' = Some (d, j)"
    show ?thesis
    proof (cases "best = Some (d, j)")
      case True
      then show ?thesis by simp
    next
      case False
      with e obtain l where l: "dm c x = Some l" "distance l = d" "j = i"
        and lt: "\<forall>d0 j0. best = Some (d0, j0) \<longrightarrow> d < d0"
        by (auto split: option.splits if_splits)
      then show ?thesis by simp
    qed
  next
    assume h: "Suc i \<le> j \<and> j < Suc i + length xs
       \<and> (\<exists>l. dm c (xs ! (j - Suc i)) = Some l \<and> distance l = d)
       \<and> (\<forall>d0 j0. ?best' = Some (d0, j0) \<longrightarrow> d < d0)
       \<and> (\<forall>k<j - Suc i. \<forall>l. dm c (xs ! k) = Some l \<longrightarrow> d < distance l)"
    then have ji: "j - i = Suc (j - Suc i)" by auto
    have x: "\<forall>l. dm c x = Some l \<longrightarrow> d < distance l"
      using h by (auto split: option.splits if_splits)
    have b: "\<forall>d0 j0. best = Some (d0, j0) \<longrightarrow> d < d0"
      using h by (auto split: option.splits if_splits)
    have k: "\<forall>k<j - i. \<forall>l. dm c ((x # xs) ! k) = Some l \<longrightarrow> d < distance l"
    proof (intro allI impI)
      fix k l
      assume "k < j - i" and "dm c ((x # xs) ! k) = Some l"
      then show "d < distance l"
        using x h ji by (cases k) auto
    qed
    from h ji b k show ?thesis by auto
  qed
qed

lemma nearestLoop_first_min:
  assumes "nearestLoop dm c xs 0 None = Some (d, j)"
  shows "j < length xs \<and> (\<exists>l. dm c (xs ! j) = Some l \<and> distance l = d)
         \<and> (\<forall>k<length xs. \<forall>l. dm c (xs ! k) = Some l \<longrightarrow>
               d \<le> distance l \<and> (k < j \<longrightarrow> d < distance l))"
  using nearestLoop_origin [OF assms] nearestLoop_lower [OF assms]
  by auto

lemma nearestLoop_unique:
  assumes "j < length xs" and "dm c (xs ! j) = Some l"
    and "\<forall>k<length xs. \<forall>l'. dm c (xs ! k) = Some l' \<longrightarrow>
               distance l \<le> distance l' \<and> (k < j \<longrightarrow> distance l < distance l')"
  shows "nearestLoop dm c xs 0 None = Some (distance l, j)"
proof (cases "nearestLoop dm c xs 0 None")
  case None
  with assms(1,2) show ?thesis by (auto simp: nearestLoop_None)
next
  case (Some r)
  obtain d' j' where r: "r = (d', j')" by (cases r)
  note f = nearestLoop_first_min [OF Some [unfolded r]]
  from f obtain l' where l': "j' < length xs" "dm c (xs ! j') = Some l'" "distance l' = d'"
    by auto
  from f assms(1,2) have 1: "d' \<le> distance l" "j < j' \<longrightarrow> d' < distance l" by auto
  from assms(3) l' have 2: "distance l \<le> d'" "j' < j \<longrightarrow> distance l < d'" by auto
  from 1 2 have "d' = distance l" "j' = j" by (auto simp: not_less [symmetric])
  with Some r show ?thesis by simp
qed

lemma nnLoop_Nil: "nnLoop dm c [] = []"
  by (simp add: nnLoop.simps)

lemma nnLoop_short: "length xs < 2 \<Longrightarrow> nnLoop dm c xs = xs"
proof (cases xs)
  case Nil
  then show ?thesis by (simp add: nnLoop_Nil)
next
  case (Cons x ys)
  assume "length xs < 2"
  with Cons have xs: "xs = [x]" by simp
  show ?thesis
  proof (cases "dm c x")
    case None
    with xs show ?thesis by (simp add: nnLoop.simps [of dm c "[x]"])
  next
    case (Some l)
    with xs show ?thesis by (simp add: nnLoop.simps [of dm c "[x]"] nnLoop_Nil)
  qed
qed

lemma runNearestNeighbor_eq: "runNearestNeighbor items c dm = nnLoop dm c items"
  by (simp add: runNearestNeighbor_def nnLoop_short)

lemma nth_take_drop_mset:
  "j < length xs \<Longrightarrow> mset (take j xs @ drop (Suc j) xs) + {#xs ! j#} = mset xs"
proof -
  assume "j < length xs"
  then have "xs = take j xs @ xs ! j # drop (Suc j) xs" by (rule id_take_nth_drop)
  then have "mset xs = mset (take j xs @ xs ! j # drop (Suc j) xs)" by simp
  then show ?thesis by simp
qed

lemma nnLoop_mset: "mset (nnLoop dm c xs) = mset xs"
proof (induction dm c xs rule: nnLoop.induct)
  case (1 dm c xs)
  show ?case
  proof (cases "xs = []")
    case True
    then show ?thesis by (simp add: nnLoop_Nil)
  next
    case False
    show ?thesis
    proof (cases "nearestLoop dm c xs 0 None")
      case None
      with False show ?thesis by (simp add: nnLoop.simps [of dm c xs])
    next
      case (Some r)
      obtain d j where r: "r = (d, j)" by (cases r)
      from nearestLoop_first_min [OF Some [unfolded r]] have j: "j < length xs" by simp
      have "mset (nnLoop dm (xs ! j) (take j xs @ drop (Suc j) xs))
            = mset (take j xs @ drop (Suc j) xs)"
        using "1.IH" [OF False Some r [symmetric]] .
      with False Some r nth_take_drop_mset [OF j] show ?thesis
        by (simp add: nnLoop.simps [of dm c xs])
    qed
  qed
qed

lemma nnLoop_set: "set (nnLoop dm c xs) = set xs"
  using nnLoop_mset [of dm c xs] by (metis mset_eq_setD)

lemma nnLoop_step:
  assumes "nearestLoop dm c xs 0 None = Some (d, j)"
  shows "nnLoop dm c xs = xs ! j # nnLoop dm (xs ! j) (take j xs @ drop (Suc j) xs)"
proof -
  from nearestLoop_first_min [OF assms] have "xs \<noteq> []" by auto
  with assms show ?thesis by (simp add: nnLoop.simps [of dm c xs])
qed

lemma nnLoop_unknown:
  assumes "nearestLoop dm c xs 0 None = None"
  shows "nnLoop dm c xs = xs"
  using assms by (simp add: nnLoop.simps [of dm c xs])

lemma nearestLoop_transfer:
  assumes pick: "nearestLoop dm c L 0 None = Some (d, j)"
    and sub: "set L2 \<subseteq> set L"
    and j2: "j2 < length L2" "L2 ! j2 = L ! j"
    and pre: "\<forall>k<j2. \<exists>k'<j. L2 ! k = L ! k'"
  shows "nearestLoop dm c L2 0 None = Some (d, j2)"
proof -
  note fm = nearestLoop_first_min [OF pick]
  from fm obtain l where j: "j < length L" and l: "dm c (L ! j) = Some l" "distance l = d"
    by auto
  have lower: "\<forall>x\<in>set L. \<forall>l'. dm c x = Some l' \<longrightarrow> distance l \<le> distance l'"
    using nearestLoop_lower [OF pick] l(2) by blast
  have "nearestLoop dm c L2 0 None = Some (distance l, j2)"
  proof (rule nearestLoop_unique)
    show "j2 < length L2" by (rule j2(1))
    show "dm c (L2 ! j2) = Some l" using j2(2) l(1) by simp
    show "\<forall>k<length L2. \<forall>l'. dm c (L2 ! k) = Some l' \<longrightarrow>
            distance l \<le> distance l' \<and> (k < j2 \<longrightarrow> distance l < distance l')"
    proof (intro allI impI conjI)
      fix k l'
      assume k: "k < length L2" and kl: "dm c (L2 ! k) = Some l'"
      from k have "L2 ! k \<in> set L2" by (rule nth_mem)
      with sub have "L2 ! k \<in> set L" by blast
      with lower kl show "distance l \<le> distance l'" by blast
      assume "k < j2"
      with pre obtain k' where k': "k' < j" "L2 ! k = L ! k'" by blast
      from k'(1) j have kl': "k' < length L" by simp
      from kl k'(2) have dl': "dm c (L ! k') = Some l'" by simp
      from fm have "\<forall>k<length L. \<forall>l'. dm c (L ! k) = Some l' \<longrightarrow>
               d \<le> distance l' \<and> (k < j \<longrightarrow> d < distance l')"
        by (elim conjE)
      from this [rule_format, OF kl' dl'] k'(1) l(2) show "distance l < distance l'" by simp
    qed
  qed
  with l(2) show ?thesis by simp
qed

lemma nnLoop_stable:
  assumes "\<forall>x\<in>set I. P x" and "\<forall>x\<in>set S. \<not> P x"
  shows "nnLoop dm c (I @ filter (\<lambda>x. \<not> P x) (nnLoop dm c (I @ S))) = nnLoop dm c (I @ S)"
  using assms
proof (induction "length I + length S" arbitrary: c I S rule: less_induct)
  case less
  define L where "L = I @ S"
  define S2 where "S2 = filter (\<lambda>x. \<not> P x) (nnLoop dm c L)"
  have fI: "filter (\<lambda>x. \<not> P x) I = []" using less.prems(1) by (auto simp: filter_empty_conv)
  have fS: "filter (\<lambda>x. \<not> P x) S = S" using less.prems(2) by (auto simp: filter_id_conv)
  have sub: "set (I @ S2) \<subseteq> set L"
    using nnLoop_set [of dm c L] by (auto simp: S2_def L_def)
  have goal: "nnLoop dm c (I @ S2) = nnLoop dm c L"
  proof (cases "nearestLoop dm c L 0 None")
    case None
    then have "nnLoop dm c L = L" by (rule nnLoop_unknown)
    then have "S2 = S" using fI fS by (simp add: S2_def L_def)
    then show ?thesis by (simp add: L_def)
  next
    case (Some r)
    obtain d j where r: "r = (d, j)" by (cases r)
    with Some have pick: "nearestLoop dm c L 0 None = Some (d, j)" by simp
    from nearestLoop_first_min [OF pick] have j: "j < length L" by simp
    define e where "e = L ! j"
    define L' where "L' = take j L @ drop (Suc j) L"
    have O: "nnLoop dm c L = e # nnLoop dm e L'"
      using nnLoop_step [OF pick] by (simp only: e_def L'_def)
    show ?thesis
    proof (cases "j < length I")
      case True
      define I' where "I' = take j I @ drop (Suc j) I"
      have e: "e = I ! j" using True by (simp add: e_def L_def nth_append)
      then have Pe: "P e" using True less.prems(1) by simp
      have L': "L' = I' @ S" using True by (simp add: L'_def L_def I'_def)
      have S2: "S2 = filter (\<lambda>x. \<not> P x) (nnLoop dm e (I' @ S))"
        using Pe by (simp add: S2_def O L')
      have "nearestLoop dm c (I @ S2) 0 None = Some (d, j)"
      proof (rule nearestLoop_transfer [OF pick sub])
        show "j < length (I @ S2)" using True by simp
        show "(I @ S2) ! j = L ! j" using True by (simp add: nth_append L_def)
        show "\<forall>k<j. \<exists>k'<j. (I @ S2) ! k = L ! k'"
        proof (intro allI impI)
          fix k
          assume k: "k < j"
          with True have "(I @ S2) ! k = L ! k" by (simp add: nth_append L_def)
          with k show "\<exists>k'<j. (I @ S2) ! k = L ! k'" by blast
        qed
      qed
      then have "nnLoop dm c (I @ S2)
                 = (I @ S2) ! j # nnLoop dm ((I @ S2) ! j)
                     (take j (I @ S2) @ drop (Suc j) (I @ S2))"
        by (rule nnLoop_step)
      moreover have "(I @ S2) ! j = e" using True e by (simp add: nth_append)
      moreover have "take j (I @ S2) @ drop (Suc j) (I @ S2) = I' @ S2"
        using True by (simp add: I'_def)
      ultimately have st: "nnLoop dm c (I @ S2) = e # nnLoop dm e (I' @ S2)" by simp
      have "nnLoop dm e (I' @ filter (\<lambda>x. \<not> P x) (nnLoop dm e (I' @ S)))
                 = nnLoop dm e (I' @ S)"
      proof (rule less.hyps)
        show "length I' + length S < length I + length S" using True by (simp add: I'_def)
        show "\<forall>x\<in>set I'. P x"
          using less.prems(1) by (auto simp: I'_def dest: in_set_takeD in_set_dropD)
        show "\<forall>x\<in>set S. \<not> P x" by (rule less.prems(2))
      qed
      then have "nnLoop dm e (I' @ S2) = nnLoop dm e (I' @ S)" by (simp only: S2 [symmetric])
      with st O L' show ?thesis by simp
    next
      case False
      define m where "m = j - length I"
      from False j have m: "m < length S" "j = length I + m" by (auto simp: m_def L_def)
      define S' where "S' = take m S @ drop (Suc m) S"
      have e: "e = S ! m" using m by (simp add: e_def L_def nth_append)
      then have Pe: "\<not> P e" using m less.prems(2) by simp
      have L': "L' = I @ S'" using m by (simp add: L'_def L_def S'_def)
      define S2' where "S2' = filter (\<lambda>x. \<not> P x) (nnLoop dm e (I @ S'))"
      have S2: "S2 = e # S2'" using Pe by (simp add: S2_def O L' S2'_def)
      have "nearestLoop dm c (I @ S2) 0 None = Some (d, length I)"
      proof (rule nearestLoop_transfer [OF pick sub])
        show "length I < length (I @ S2)" using S2 by simp
        show "(I @ S2) ! length I = L ! j" using S2 by (simp add: e_def [symmetric])
        show "\<forall>k<length I. \<exists>k'<j. (I @ S2) ! k = L ! k'"
        proof (intro allI impI)
          fix k
          assume k: "k < length I"
          then have "(I @ S2) ! k = L ! k" by (simp add: nth_append L_def)
          moreover from k m have "k < j" by simp
          ultimately show "\<exists>k'<j. (I @ S2) ! k = L ! k'" by blast
        qed
      qed
      then have "nnLoop dm c (I @ S2)
                 = (I @ S2) ! length I # nnLoop dm ((I @ S2) ! length I)
                     (take (length I) (I @ S2) @ drop (Suc (length I)) (I @ S2))"
        by (rule nnLoop_step)
      moreover have "(I @ S2) ! length I = e" using S2 by simp
      moreover have "take (length I) (I @ S2) @ drop (Suc (length I)) (I @ S2) = I @ S2'"
        using S2 by simp
      ultimately have st: "nnLoop dm c (I @ S2) = e # nnLoop dm e (I @ S2')" by simp
      have "nnLoop dm e (I @ filter (\<lambda>x. \<not> P x) (nnLoop dm e (I @ S')))
                 = nnLoop dm e (I @ S')"
      proof (rule less.hyps)
        show "length I + length S' < length I + length S" using m by (simp add: S'_def)
        show "\<forall>x\<in>set I. P x" by (rule less.prems(1))
        show "\<forall>x\<in>set S'. \<not> P x"
          using less.prems(2) by (auto simp: S'_def dest: in_set_takeD in_set_dropD)
      qed
      then have "nnLoop dm e (I @ S2') = nnLoop dm e (I @ S')" by (simp only: S2'_def)
      with st O L' show ?thesis by simp
    qed
  qed
  then show ?case by (simp only: S2_def L_def)
qed

lemma nnLoop_empty_iff: "nnLoop dm c xs = [] \<longleftrightarrow> xs = []"
  using nnLoop_mset [of dm c xs] by (metis mset_zero_iff)

lemma storeOrder_alt: "storeOrder ss wh dm = sequenceKeys (hasCold ss) wh dm (uniqueStores ss)"
  by (simp add: storeOrder_def sequenceKeys_def Let_def runNearestNeighbor_eq lastOr_def
      nnLoop_Nil nnLoop_empty_iff)

lemma uniq_distinct [simp]: "distinct (uniq xs)"
  by (simp add: uniq_def)

lemma js_keys_set [simp]: "set (js_keys ks) = set ks"
  by (auto simp: js_keys_def)

lemma js_keys_distinct: "distinct ks \<Longrightarrow> distinct (js_keys ks)"
  by (auto simp: js_keys_def)

lemma js_keys_filter: "filter P (js_keys ks) = js_keys (filter P ks)"
proof -
  have "filter P (sort_key dec (filter isArrayIndex ks)) = sort_key dec (filter P (filter isArrayIndex ks))"
    by (rule filter_sort)
  also have "filter P (filter isArrayIndex ks) = filter isArrayIndex (filter P ks)"
    by (simp add: conj_commute)
  finally show ?thesis by (simp add: js_keys_def conj_commute)
qed

lemma js_keys_parts:
  "filter isArrayIndex (js_keys ks) = sort_key dec (filter isArrayIndex ks)"
  "filter (\<lambda>k. \<not> isArrayIndex k) (js_keys ks) = filter (\<lambda>k. \<not> isArrayIndex k) ks"
proof -
  have a: "filter isArrayIndex (sort_key dec (filter isArrayIndex ks))
           = sort_key dec (filter isArrayIndex ks)"
    by (simp add: filter_sort)
  have b: "filter (\<lambda>k. \<not> isArrayIndex k) (sort_key dec (filter isArrayIndex ks)) = []"
    by (simp add: filter_sort)
  show "filter isArrayIndex (js_keys ks) = sort_key dec (filter isArrayIndex ks)"
    using a by (simp add: js_keys_def)
  show "filter (\<lambda>k. \<not> isArrayIndex k) (js_keys ks) = filter (\<lambda>k. \<not> isArrayIndex k) ks"
    using b by (simp add: js_keys_def)
qed

text \<open>Re-running the loop on the re-enumerated keys of its own output changes nothing.\<close>

lemma nnLoop_js_keys:
  assumes "distinct ks"
  shows "nnLoop dm c (js_keys (nnLoop dm c (js_keys ks))) = nnLoop dm c (js_keys ks)"
proof -
  define I where "I = sort_key dec (filter isArrayIndex ks)"
  define S where "S = filter (\<lambda>k. \<not> isArrayIndex k) ks"
  define Out where "Out = nnLoop dm c (I @ S)"
  have K: "js_keys ks = I @ S" by (simp add: js_keys_def I_def S_def)
  have PI: "\<forall>x\<in>set I. isArrayIndex x" by (simp add: I_def)
  have PS: "\<forall>x\<in>set S. \<not> isArrayIndex x" by (simp add: S_def)
  have fI: "filter isArrayIndex (I @ S) = I"
    using PI PS by (auto simp: filter_id_conv filter_empty_conv)
  have dO: "distinct Out"
    using js_keys_distinct [OF assms] nnLoop_mset [of dm c "I @ S"]
    unfolding Out_def K by (metis mset_eq_imp_distinct_iff)
  have "mset (filter isArrayIndex Out) = mset (filter isArrayIndex (I @ S))"
    by (simp add: Out_def nnLoop_mset)
  then have m: "mset (filter isArrayIndex Out) = mset I" by (simp only: fI)
  have inj: "inj_on dec (set (filter isArrayIndex Out))"
    by (rule inj_onI) (auto intro: dec_inj_index)
  have "sort_key dec (filter isArrayIndex Out) = sort_key dec I"
    using m inj dO by (intro sort_key_perm_inj) auto
  also have "sort_key dec I = I"
    by (simp add: I_def sort_key_id_if_sorted)
  finally have "js_keys Out = I @ filter (\<lambda>k. \<not> isArrayIndex k) Out"
    by (simp add: js_keys_def)
  then have "nnLoop dm c (js_keys Out) = nnLoop dm c (I @ filter (\<lambda>k. \<not> isArrayIndex k) (nnLoop dm c (I @ S)))"
    by (simp only: Out_def)
  also have "\<dots> = nnLoop dm c (I @ S)"
    using PI PS by (rule nnLoop_stable)
  finally show ?thesis by (simp only: Out_def K)
qed

lemma sequenceKeys_idem:
  assumes "distinct us"
  shows "sequenceKeys cold wh dm (sequenceKeys cold wh dm us) = sequenceKeys cold wh dm us"
proof -
  define A where "A = filter (\<lambda>k. \<not> cold k) us"
  define C where "C = filter cold us"
  define oA where "oA = nnLoop dm wh (js_keys A)"
  define oC where "oC = nnLoop dm (lastOr wh oA) (js_keys C)"
  have O: "sequenceKeys cold wh dm us = oA @ oC"
    by (simp add: sequenceKeys_def js_keys_filter oA_def oC_def A_def C_def)
  have sA: "set oA = set A" by (simp add: oA_def nnLoop_set)
  have sC: "set oC = set C" by (simp add: oC_def nnLoop_set)
  have fA: "filter (\<lambda>k. \<not> cold k) (oA @ oC) = oA"
    using sA sC by (auto simp: A_def C_def filter_id_conv filter_empty_conv)
  have fC: "filter cold (oA @ oC) = oC"
    using sA sC by (auto simp: A_def C_def filter_id_conv filter_empty_conv)
  have dA: "distinct A" and dC: "distinct C" using assms by (simp_all add: A_def C_def)
  have a: "nnLoop dm wh (js_keys oA) = oA"
    unfolding oA_def using dA by (rule nnLoop_js_keys)
  have c: "nnLoop dm (lastOr wh oA) (js_keys oC) = oC"
    unfolding oC_def using dC by (rule nnLoop_js_keys)
  have "sequenceKeys cold wh dm (oA @ oC)
        = nnLoop dm wh (js_keys oA) @ nnLoop dm (lastOr wh (nnLoop dm wh (js_keys oA))) (js_keys oC)"
    by (simp only: sequenceKeys_def js_keys_filter fA fC)
  also have "\<dots> = oA @ oC" by (simp only: a c)
  finally show ?thesis by (simp only: O)
qed

lemma sequenceKeys_set: "set (sequenceKeys cold wh dm us) = set us"
  by (auto simp: sequenceKeys_def nnLoop_set)

lemma sequenceKeys_distinct: "distinct us \<Longrightarrow> distinct (sequenceKeys cold wh dm us)"
proof -
  assume d: "distinct us"
  have 1: "distinct (nnLoop dm c (filter P (js_keys us)))" for c P
    using js_keys_distinct [OF d] nnLoop_mset [of dm c "filter P (js_keys us)"]
    by (metis distinct_filter mset_eq_imp_distinct_iff)
  show ?thesis
    using 1 by (auto simp: sequenceKeys_def nnLoop_set)
qed

lemma uniq_append: "uniq (xs @ ys) = uniq xs @ filter (\<lambda>y. y \<notin> set xs) (uniq ys)"
proof (induction ys rule: rev_induct)
  case Nil
  show ?case by (simp add: uniq_def)
next
  case (snoc y ys)
  have "uniq (xs @ ys @ [y]) = uniq ((xs @ ys) @ [y])" by simp
  also have "\<dots> = (if y \<in> set (xs @ ys) then uniq (xs @ ys) else uniq (xs @ ys) @ [y])"
    by (rule uniq_snoc)
  finally show ?case using snoc by (auto simp: uniq_snoc)
qed

lemma distinct_singleton: "distinct xs \<Longrightarrow> set xs = {a} \<Longrightarrow> xs = [a]"
proof (cases xs)
  case Nil
  assume "set xs = {a}"
  with Nil show ?thesis by simp
next
  case (Cons x ys)
  assume d: "distinct xs" and s: "set xs = {a}"
  from s Cons have "x = a" "set ys \<subseteq> {a}" by auto
  with d Cons have "ys = []" by (cases ys) auto
  with Cons \<open>x = a\<close> show ?thesis by simp
qed

lemma uniq_constant: "xs \<noteq> [] \<Longrightarrow> \<forall>x\<in>set xs. x = a \<Longrightarrow> uniq xs = [a]"
proof -
  assume "xs \<noteq> []" and "\<forall>x\<in>set xs. x = a"
  then have "set (uniq xs) = {a}" by (cases xs) auto
  then show ?thesis by (intro distinct_singleton) simp_all
qed

lemma uniq_groups:
  assumes "distinct order" and "\<forall>st\<in>set order. g st \<noteq> [] \<and> (\<forall>s\<in>set (g st). f s = st)"
  shows "uniq (map f (concat (map g order))) = order"
  using assms
proof (induction order)
  case Nil
  show ?case by (simp add: uniq_def)
next
  case (Cons st rest)
  have a: "uniq (map f (g st)) = [st]"
    using Cons.prems(2) by (intro uniq_constant) auto
  have b: "uniq (map f (concat (map g rest))) = rest"
    using Cons by simp
  have c: "filter (\<lambda>y. y \<notin> set (map f (g st))) rest = rest"
    using Cons.prems by (auto simp: filter_id_conv)
  have "uniq (map f (concat (map g (st # rest))))
        = uniq (map f (g st) @ map f (concat (map g rest)))"
    by simp
  also have "\<dots> = uniq (map f (g st))
                  @ filter (\<lambda>y. y \<notin> set (map f (g st))) (uniq (map f (concat (map g rest))))"
    by (rule uniq_append)
  also have "\<dots> = [st] @ rest" by (simp only: a b c)
  finally show ?case by simp
qed

lemma filter_groups:
  assumes "distinct order"
  shows "filter (\<lambda>s. f s = st) (concat (map (\<lambda>k. filter (\<lambda>s. f s = k) ss) order))
         = (if st \<in> set order then filter (\<lambda>s. f s = st) ss else [])"
  using assms
proof (induction order)
  case Nil
  show ?case by simp
next
  case (Cons k rest)
  have a: "filter (\<lambda>s. f s = st) (filter (\<lambda>s. f s = k) ss)
           = (if k = st then filter (\<lambda>s. f s = st) ss else [])"
    by (auto simp: filter_empty_conv intro: filter_cong)
  have ih: "filter (\<lambda>s. f s = st) (concat (map (\<lambda>k. filter (\<lambda>s. f s = k) ss) rest))
            = (if st \<in> set rest then filter (\<lambda>s. f s = st) ss else [])"
    using Cons by simp
  have "filter (\<lambda>s. f s = st) (concat (map (\<lambda>k. filter (\<lambda>s. f s = k) ss) (k # rest)))
        = filter (\<lambda>s. f s = st) (filter (\<lambda>s. f s = k) ss)
          @ filter (\<lambda>s. f s = st) (concat (map (\<lambda>k. filter (\<lambda>s. f s = k) ss) rest))"
    by simp
  also have "\<dots> = (if k = st then filter (\<lambda>s. f s = st) ss else [])
                  @ (if st \<in> set rest then filter (\<lambda>s. f s = st) ss else [])"
    by (simp only: a ih)
  also have "\<dots> = (if st \<in> set (k # rest) then filter (\<lambda>s. f s = st) ss else [])"
    using Cons.prems by auto
  finally show ?case .
qed

lemma hasCold_filter:
  "hasCold ss st = list_ex (\<lambda>s. category s = Chiller \<or> category s = Freezer)
                     (filter (\<lambda>s. store s = st) ss)"
  by (auto simp: hasCold_def list_ex_iff)

text \<open>
  A leg between two consecutive stores that is missing in both directions makes the
  Insertion Scorer reject.
\<close>

lemma scorer_rejects_missing_store_leg:
  assumes "(a, b) \<in> set (pairs (uniqueStores
              (advancedOptimizeStopOrder (stops rt) (warehouse ctx) (distanceMatrix ctx))))
           \<or> (a, b) \<in> set (pairs (uniqueStores
              (advancedOptimizeStopOrder (stops rt @ [s]) (warehouse ctx) (distanceMatrix ctx))))"
    and "distanceMatrix ctx a b = None" and "distanceMatrix ctx b a = None"
    and "\<forall>x\<in>set (stops rt @ [s]). store x \<noteq> []"
  shows "checkAndScoreInsertion s rt ctx = None"
proof (rule ccontr)
  assume "checkAndScoreInsertion s rt ctx \<noteq> None"
  then obtain v where v: "checkAndScoreInsertion s rt ctx = Some v" by auto
  have ne1: "\<forall>x\<in>set (advancedOptimizeStopOrder (stops rt) (warehouse ctx) (distanceMatrix ctx)).
               store x \<noteq> []"
    using assms(4) advancedOptimize_subset [of "stops rt"] by auto
  have ne2: "\<forall>x\<in>set (advancedOptimizeStopOrder (stops rt @ [s]) (warehouse ctx) (distanceMatrix ctx)).
               store x \<noteq> []"
    using assms(4) advancedOptimize_subset [of "stops rt @ [s]"] by blast
  from assms(1) show False
  proof
    assume "(a, b) \<in> set (pairs (uniqueStores
              (advancedOptimizeStopOrder (stops rt) (warehouse ctx) (distanceMatrix ctx))))"
    from getLeg_missing [OF this assms(2,3) ne1] scorer_accepts(2) [OF v] show False by simp
  next
    assume "(a, b) \<in> set (pairs (uniqueStores
              (advancedOptimizeStopOrder (stops rt @ [s]) (warehouse ctx) (distanceMatrix ctx))))"
    from getLeg_missing [OF this assms(2,3) ne2] scorer_accepts(3) [OF v] show False by simp
  qed
qed

subsection \<open>Ties in the nearest-neighbour order\<close>

lemma precedes_nth:
  assumes "distinct xs" and "i < j" and "j < length xs"
  shows "precedes xs (xs ! i) (xs ! j)"
proof -
  have "\<And>k. k < j \<Longrightarrow> xs ! k \<noteq> xs ! j"
    using assms(1,3) by (simp add: nth_eq_iff_index_eq)
  then have "j \<le> length (takeWhile (\<lambda>x. x \<noteq> xs ! j) xs)"
    using assms(3) by (intro length_takeWhile_less_P_nth) simp_all
  with assms(2) have i: "i < length (takeWhile (\<lambda>x. x \<noteq> xs ! j) xs)" by simp
  then have "takeWhile (\<lambda>x. x \<noteq> xs ! j) xs ! i = xs ! i" by (rule takeWhile_nth)
  with i have "xs ! i \<in> set (takeWhile (\<lambda>x. x \<noteq> xs ! j) xs)"
    by (metis nth_mem)
  with assms(3) show ?thesis by (simp add: precedes_def)
qed

lemma takeWhile_filter_sub:
  "Q b \<Longrightarrow> set (takeWhile (\<lambda>x. x \<noteq> b) (filter Q xs)) \<subseteq> set (takeWhile (\<lambda>x. x \<noteq> b) xs)"
  by (induction xs) auto

lemma precedes_filter:
  assumes "precedes (filter Q xs) a b"
  shows "precedes xs a b"
proof -
  from assms have b: "b \<in> set xs" "Q b" by (simp_all add: precedes_def)
  from assms takeWhile_filter_sub [where Q = Q and b = b and xs = xs] b show ?thesis
    by (auto simp: precedes_def)
qed

lemma remove_nth_filter:
  "distinct xs \<Longrightarrow> n < length xs \<Longrightarrow> take n xs @ drop (Suc n) xs = filter (\<lambda>x. x \<noteq> xs ! n) xs"
proof (induction xs arbitrary: n)
  case Nil
  then show ?case by simp
next
  case (Cons x xs)
  show ?case
  proof (cases n)
    case 0
    from Cons.prems(1) have "filter (\<lambda>y. y \<noteq> x) xs = xs" by (auto simp: filter_id_conv)
    with 0 show ?thesis by simp
  next
    case (Suc m)
    with Cons.prems have m: "m < length xs" and d: "distinct xs" and x: "x \<notin> set xs" by simp_all
    from m x have "x \<noteq> xs ! m" by (metis nth_mem)
    with Suc Cons.IH [OF d m] show ?thesis by simp
  qed
qed

lemma nnLoop_ties:
  "distinct items \<Longrightarrow> i < j \<Longrightarrow> j < length (nnLoop dm c items) \<Longrightarrow>
   dm (if i = 0 then c else nnLoop dm c items ! (i - 1)) (nnLoop dm c items ! i) = Some l \<Longrightarrow>
   dm (if i = 0 then c else nnLoop dm c items ! (i - 1)) (nnLoop dm c items ! j) = Some l' \<Longrightarrow>
   distance l = distance l' \<Longrightarrow>
   precedes items (nnLoop dm c items ! i) (nnLoop dm c items ! j)"
proof (induction dm c items arbitrary: i j rule: nnLoop.induct)
  case (1 dm c xs)
  note prems = "1.prems"
  show ?case
  proof (cases "xs = []")
    case True
    with prems(3) show ?thesis by (simp add: nnLoop_Nil)
  next
    case False
    show ?thesis
    proof (cases "nearestLoop dm c xs 0 None")
      case None
      then have e: "nnLoop dm c xs = xs" by (rule nnLoop_unknown)
      from prems(1,2,3) show ?thesis unfolding e by (rule precedes_nth)
    next
      case (Some r)
      obtain d n where r: "r = (d, n)" by (cases r)
      note pick = Some [unfolded r]
      note fm = nearestLoop_first_min [OF pick]
      from fm have n: "n < length xs" by simp
      define rem where "rem = take n xs @ drop (Suc n) xs"
      define rest where "rest = nnLoop dm (xs ! n) rem"
      have out: "nnLoop dm c xs = xs ! n # rest"
        unfolding rest_def rem_def by (rule nnLoop_step [OF pick])
      have remf: "rem = filter (\<lambda>x. x \<noteq> xs ! n) xs"
        unfolding rem_def by (rule remove_nth_filter [OF prems(1) n])
      have drem: "distinct rem" unfolding remf using prems(1) by simp
      have srest: "set rest = set rem" unfolding rest_def by (rule nnLoop_set)
      from prems(3) have j: "j - 1 < length rest" using prems(2) by (simp add: out)
      from prems(2) have jpos: "0 < j" by simp
      then have oj: "nnLoop dm c xs ! j = rest ! (j - 1)" by (simp add: out nth_Cons')
      show ?thesis
      proof (cases "i = 0")
        case True
        from j have "rest ! (j - 1) \<in> set rem" using srest by (metis nth_mem)
        then have "rest ! (j - 1) \<in> set xs" "rest ! (j - 1) \<noteq> xs ! n" by (simp_all add: remf)
        then obtain k where k: "k < length xs" "xs ! k = rest ! (j - 1)" "k \<noteq> n"
          by (metis in_set_conv_nth)
        from prems(4) True have l: "dm c (xs ! n) = Some l" by (simp add: out)
        from prems(5) True oj k(2) have l': "dm c (xs ! k) = Some l'" by simp
        from fm l have d: "distance l = d" by auto
        from fm k(1) l' have "k < n \<longrightarrow> d < distance l'" by blast
        with d prems(6) have "\<not> k < n" by simp
        with k(3) have "n < k" by simp
        from precedes_nth [OF prems(1) this k(1)] True k(2) oj show ?thesis
          by (simp add: out)
      next
        case False
        then have ipos: "0 < i" by simp
        have oi: "nnLoop dm c xs ! i = rest ! (i - 1)" using ipos by (simp add: out nth_Cons')
        have prev: "(if i = 0 then c else nnLoop dm c xs ! (i - 1))
                    = (if i - 1 = 0 then xs ! n else rest ! (i - 1 - 1))"
          using ipos by (simp add: out nth_Cons')
        have lt: "i - 1 < j - 1" using prems(2) ipos by simp
        have a: "dm (if i - 1 = 0 then xs ! n else nnLoop dm (xs ! n) rem ! (i - 1 - 1))
                    (nnLoop dm (xs ! n) rem ! (i - 1)) = Some l"
          using prems(4) unfolding prev oi rest_def .
        have b: "dm (if i - 1 = 0 then xs ! n else nnLoop dm (xs ! n) rem ! (i - 1 - 1))
                    (nnLoop dm (xs ! n) rem ! (j - 1)) = Some l'"
          using prems(5) unfolding prev oj rest_def .
        have "precedes rem (nnLoop dm (xs ! n) rem ! (i - 1)) (nnLoop dm (xs ! n) rem ! (j - 1))"
          using "1.IH" [OF \<open>xs \<noteq> []\<close> Some r [symmetric] drem [unfolded rem_def] lt
                  j [unfolded rest_def rem_def] a [unfolded rem_def] b [unfolded rem_def] prems(6)]
          unfolding rem_def .
        then have "precedes xs (rest ! (i - 1)) (rest ! (j - 1))"
          unfolding rest_def remf by (rule precedes_filter)
        then show ?thesis by (simp only: oi oj)
      qed
    qed
  qed
qed

lemma sequenceKeys_ties:
  assumes d: "distinct us"
    and ij: "i < j" "j < length (sequenceKeys cold wh dm us)"
    and grp: "cold (sequenceKeys cold wh dm us ! i) = cold (sequenceKeys cold wh dm us ! j)"
    and l: "dm (if i = 0 then wh else sequenceKeys cold wh dm us ! (i - 1))
               (sequenceKeys cold wh dm us ! i) = Some l"
    and l': "dm (if i = 0 then wh else sequenceKeys cold wh dm us ! (i - 1))
                (sequenceKeys cold wh dm us ! j) = Some l'"
    and tie: "distance l = distance l'"
  shows "precedes (js_keys us) (sequenceKeys cold wh dm us ! i) (sequenceKeys cold wh dm us ! j)"
proof -
  define A where "A = filter (\<lambda>k. \<not> cold k) (js_keys us)"
  define C where "C = filter cold (js_keys us)"
  define a where "a = nnLoop dm wh A"
  define b where "b = nnLoop dm (lastOr wh a) C"
  define order where "order = sequenceKeys cold wh dm us"
  have ord: "order = a @ b"
    by (simp add: order_def sequenceKeys_def a_def b_def A_def C_def)
  have dk: "distinct (js_keys us)" using d by (rule js_keys_distinct)
  have dA: "distinct A" and dC: "distinct C" using dk by (simp_all add: A_def C_def)
  have sa: "set a = set A" unfolding a_def by (rule nnLoop_set)
  have sb: "set b = set C" unfolding b_def by (rule nnLoop_set)
  have ca: "\<And>x. x \<in> set a \<Longrightarrow> \<not> cold x" by (simp add: sa A_def)
  have cb: "\<And>x. x \<in> set b \<Longrightarrow> cold x" by (simp add: sb C_def)
  note ij' = ij [folded order_def] and grp' = grp [folded order_def]
    and l0 = l [folded order_def] and l0' = l' [folded order_def]
  from ij' have jl: "j < length a + length b" by (simp add: ord)
  have "precedes (js_keys us) (order ! i) (order ! j)"
  proof (cases "j < length a")
    case True
    with ij'(1) have il: "i < length a" by simp
    have oi: "order ! i = a ! i" and oj: "order ! j = a ! j"
      using il True by (simp_all add: ord nth_append)
    from il have "i - 1 < length a" by simp
    then have prev: "(if i = 0 then wh else order ! (i - 1)) = (if i = 0 then wh else a ! (i - 1))"
      by (simp add: ord nth_append)
    have "precedes A (nnLoop dm wh A ! i) (nnLoop dm wh A ! j)"
    proof (rule nnLoop_ties [OF dA ij'(1) _ _ _ tie])
      show "j < length (nnLoop dm wh A)" using True by (simp add: a_def)
      show "dm (if i = 0 then wh else nnLoop dm wh A ! (i - 1)) (nnLoop dm wh A ! i) = Some l"
        using l0 unfolding prev oi a_def .
      show "dm (if i = 0 then wh else nnLoop dm wh A ! (i - 1)) (nnLoop dm wh A ! j) = Some l'"
        using l0' unfolding prev oj a_def .
    qed
    then have "precedes A (a ! i) (a ! j)" by (simp only: a_def)
    then have "precedes (js_keys us) (a ! i) (a ! j)"
      unfolding A_def by (rule precedes_filter)
    then show ?thesis by (simp only: oi oj)
  next
    case False
    then have jb: "j - length a < length b" using jl by simp
    have oj: "order ! j = b ! (j - length a)" using False by (simp add: ord nth_append)
    from jb have cj: "cold (order ! j)" unfolding oj by (intro cb) (metis nth_mem)
    show ?thesis
    proof (cases "i < length a")
      case True
      then have "order ! i = a ! i" by (simp add: ord nth_append)
      with True have "\<not> cold (order ! i)" using ca by (metis nth_mem)
      with cj grp' show ?thesis by simp
    next
      case ge: False
      have oi: "order ! i = b ! (i - length a)" using ge by (simp add: ord nth_append)
      have lt: "i - length a < j - length a" using ij'(1) ge by simp
      have prev: "(if i = 0 then wh else order ! (i - 1))
                  = (if i - length a = 0 then lastOr wh a else b ! (i - length a - 1))"
      proof (cases "i - length a = 0")
        case True
        with ge have e: "i = length a" by simp
        show ?thesis
        proof (cases "a = []")
          case True
          with e show ?thesis by (simp add: lastOr_def)
        next
          case False
          then have "order ! (length a - 1) = last a"
            by (simp add: ord nth_append last_conv_nth)
          with False e show ?thesis by (simp add: lastOr_def)
        qed
      next
        case False
        then have "\<not> i - 1 < length a" "i \<noteq> 0" by simp_all
        then show ?thesis using False by (simp add: ord nth_append)
      qed
      have "precedes C (nnLoop dm (lastOr wh a) C ! (i - length a))
                       (nnLoop dm (lastOr wh a) C ! (j - length a))"
      proof (rule nnLoop_ties [OF dC lt _ _ _ tie])
        show "j - length a < length (nnLoop dm (lastOr wh a) C)" using jb by (simp add: b_def)
        show "dm (if i - length a = 0 then lastOr wh a
                  else nnLoop dm (lastOr wh a) C ! (i - length a - 1))
                 (nnLoop dm (lastOr wh a) C ! (i - length a)) = Some l"
          using l0 unfolding prev oi b_def .
        show "dm (if i - length a = 0 then lastOr wh a
                  else nnLoop dm (lastOr wh a) C ! (i - length a - 1))
                 (nnLoop dm (lastOr wh a) C ! (j - length a)) = Some l'"
          using l0' unfolding prev oj b_def .
      qed
      then have "precedes C (b ! (i - length a)) (b ! (j - length a))" by (simp only: b_def)
      then have "precedes (js_keys us) (b ! (i - length a)) (b ! (j - length a))"
        unfolding C_def by (rule precedes_filter)
      then show ?thesis by (simp only: oi oj)
    qed
  qed
  then show ?thesis by (simp only: order_def)
qed

lemma js_keys_single: "js_keys [k] = [k]"
  by (simp add: js_keys_def)

lemma uniqueStores_sequenced:
  "uniqueStores (advancedOptimizeStopOrder ss wh dm)
   = sequenceKeys (hasCold ss) wh dm (uniqueStores ss)"
proof (cases "length ss \<le> 1")
  case True
  then have out: "advancedOptimizeStopOrder ss wh dm = ss"
    by (simp add: advancedOptimizeStopOrder_def)
  show ?thesis
  proof (cases ss)
    case Nil
    then show ?thesis
      unfolding out by (simp add: uniqueStores_def uniq_def sequenceKeys_def js_keys_def nnLoop_Nil)
  next
    case (Cons s rest)
    with True have ss: "ss = [s]" by simp
    have u: "uniqueStores [s] = [store s]" by (simp add: uniqueStores_def uniq_def)
    have "uniqueStores (advancedOptimizeStopOrder [s] wh dm) = [store s]"
      by (simp add: advancedOptimizeStopOrder_def u)
    moreover have "sequenceKeys (hasCold [s]) wh dm [store s] = [store s]"
      by (simp add: sequenceKeys_def js_keys_single nnLoop_short nnLoop_Nil)
    ultimately show ?thesis by (simp only: ss u)
  qed
next
  case False
  define order where "order = storeOrder ss wh dm"
  define out where "out = concat (map (\<lambda>st. filter (\<lambda>s. store s = st) ss) order)"
  have out: "advancedOptimizeStopOrder ss wh dm = out"
    using False by (simp add: advancedOptimizeStopOrder_def out_def order_def)
  have ord: "order = sequenceKeys (hasCold ss) wh dm (uniqueStores ss)"
    by (simp add: order_def storeOrder_alt)
  have dU: "distinct (uniqueStores ss)" by (simp add: uniqueStores_def)
  have dO: "distinct order" unfolding ord using dU by (rule sequenceKeys_distinct)
  have sO: "set order = store ` set ss" by (simp add: ord sequenceKeys_set)
  have us: "uniqueStores out = order"
    unfolding uniqueStores_def out_def
  proof (rule uniq_groups [OF dO])
    show "\<forall>st\<in>set order. filter (\<lambda>s. store s = st) ss \<noteq> []
            \<and> (\<forall>s\<in>set (filter (\<lambda>s. store s = st) ss). store s = st)"
      using sO by (auto simp: filter_empty_conv)
  qed
  show ?thesis by (simp only: out us ord)
qed

subsection \<open>Limits on the routes built\<close>




lemma capped_stops: "stops a = stops b \<Longrightarrow> capped ctx a = capped ctx b"
  by (simp add: capped_def)






















subsection \<open>The swap pass over the star matrix\<close>







text \<open>
  The swap pass validates a swapped route with \<open>isRouteValid\<close>, which checks the mileage of
  the stop list as stored and no leg length: from two routes within the limits the
  Rebalancer produces a route from A to B over an 80-mile leg, an insertion that the
  Insertion Scorer rejects.
\<close>

lemma swap_pass_exceeds_leg_cap:
  "capped exCtxSwap exRouteAC \<and> capped exCtxSwap exRouteDB
   \<and> map (\<lambda>r. (map store (rowStops r), interStoreLegs exSwap (uniqueStores (rowStops r))))
        (foldl (\<lambda>sh rt. writeRouteToSheet rt sh exCtxSwap) []
           (rebalanceRoutes [exRouteAC, exRouteDB] exCtxSwap))
      = [([''D'', ''C''], [10]), ([''A'', ''B''], [80])]
   \<and> hardLegLimit exCtxSwap = 75
   \<and> checkAndScoreInsertion (inCluster ''X'' (mkShipment ''B'' Ambient 5))
        (mkRoute [inCluster ''X'' (mkShipment ''A'' Ambient 5)]) exCtxSwap = None"
  by code_simp

section \<open>Claims\<close>

text \<open>
  C3 (as amended). Whenever the Insertion Scorer accepts a shipment, the combined stop set
  does not contain Freezer together with Chiller, Ambient or Produce; and when the mixed-zone
  flag is set, every store of the combined stop set has no Chiller pallets or an
  Ambient+Produce pallet total that does not exceed the effective threshold (the configured
  one, or 4 when it is zero or unset).
\<close>

theorem C3_temperature_gate:
  assumes "checkAndScoreInsertion s rt ctx = Some v"
  shows "\<not> (Freezer \<in> category ` set (stops rt @ [s])
            \<and> (Chiller \<in> category ` set (stops rt @ [s])
                \<or> Ambient \<in> category ` set (stops rt @ [s])
                \<or> Produce \<in> category ` set (stops rt @ [s])))
         \<and> (ALLOW_ALL_ALL ctx \<longrightarrow>
              (\<forall>st\<in>store ` set (stops rt @ [s]).
                 storeCount (stops rt @ [s]) st Chiller \<le> 0
                 \<or> storeCount (stops rt @ [s]) st Ambient + storeCount (stops rt @ [s]) st Produce
                     \<le> num_or (SMALL_AMBIENT_THRESHOLD ctx) 4))"
proof -
  from assms have t: "tempCheck ctx (stops rt @ [s])" by (rule scorer_accepts(1))
  show ?thesis
  proof (intro conjI impI ballI)
    show "\<not> (Freezer \<in> category ` set (stops rt @ [s])
            \<and> (Chiller \<in> category ` set (stops rt @ [s])
                \<or> Ambient \<in> category ` set (stops rt @ [s])
                \<or> Produce \<in> category ` set (stops rt @ [s])))"
      using t by (rule tempCheck_freezer)
  next
    fix st
    assume "ALLOW_ALL_ALL ctx" and "st \<in> store ` set (stops rt @ [s])"
    then show "storeCount (stops rt @ [s]) st Chiller \<le> 0
                 \<or> storeCount (stops rt @ [s]) st Ambient + storeCount (stops rt @ [s]) st Produce
                     \<le> num_or (SMALL_AMBIENT_THRESHOLD ctx) 4"
      using tempCheck_mixed [OF t] by simp
  qed
qed

text \<open>C3, witness: an accepted Chiller/Ambient mix at one store.\<close>

theorem C3_witness:
  "checkAndScoreInsertion (mkShipment ''S1'' Ambient 5) (mkRoute [mkShipment ''S1'' Chiller 1]) exCtx
     = Some 0
   \<and> ALLOW_ALL_ALL exCtx
   \<and> storeCount [mkShipment ''S1'' Chiller 1, mkShipment ''S1'' Ambient 5] ''S1'' Ambient
       + storeCount [mkShipment ''S1'' Chiller 1, mkShipment ''S1'' Ambient 5] ''S1'' Produce
     \<le> num_or (SMALL_AMBIENT_THRESHOLD exCtx) 4"
proof -
  have a: "checkAndScoreInsertion (mkShipment ''S1'' Ambient 5)
             (mkRoute [mkShipment ''S1'' Chiller 1]) exCtx = Some 0"
    by code_simp
  have b: "ALLOW_ALL_ALL exCtx" by (simp add: exCtx_def)
  have c: "\<not> storeCount [mkShipment ''S1'' Chiller 1, mkShipment ''S1'' Ambient 5] ''S1'' Chiller \<le> 0"
    by (simp add: storeCount_def mkShipment_def)
  from C3_temperature_gate [OF a] b c show ?thesis
    using a by (simp add: mkRoute_def mkShipment_def)
qed

text \<open>
  C3, counterexample to the claim as stated: with threshold 6, a store carrying Chiller and
  exactly 6 Ambient pallets is accepted although its total is not under the threshold.
\<close>

theorem C3_counterexample:
  "checkAndScoreInsertion (mkShipment ''S1'' Ambient 6) (mkRoute [mkShipment ''S1'' Chiller 1]) exCtx
     = Some 0
   \<and> ALLOW_ALL_ALL exCtx
   \<and> storeCount [mkShipment ''S1'' Chiller 1, mkShipment ''S1'' Ambient 6] ''S1'' Chiller > 0
   \<and> \<not> (storeCount [mkShipment ''S1'' Chiller 1, mkShipment ''S1'' Ambient 6] ''S1'' Ambient
          + storeCount [mkShipment ''S1'' Chiller 1, mkShipment ''S1'' Ambient 6] ''S1'' Produce
        < SMALL_AMBIENT_THRESHOLD exCtx)"
  by code_simp

text \<open>
  C5, the code at the failing input: the distance matrix has no entry between the depot and
  store S9 in either direction. The Insertion Scorer accepts a shipment to S9 onto an empty
  route and a second one onto that route, each with score 0, and the plan commits the route HB_1
  with a total mileage of 0 and the fixed cost of 100 alone: the missing depot distance
  counts as zero. An insertion whose missing leg lies between two stores, S1 and S9, is
  rejected.
\<close>

theorem C5_missing_depot_leg_accepted:
  "distanceMatrix exCtx (warehouse exCtx) ''S9'' = None
   \<and> distanceMatrix exCtx ''S9'' (warehouse exCtx) = None
   \<and> checkAndScoreInsertion (mkShipment ''S9'' Ambient 12) (mkRoute []) exCtx = Some 0
   \<and> checkAndScoreInsertion (mkShipment ''S9'' Ambient 10)
        (mkRoute [mkShipment ''S9'' Ambient 12]) exCtx = Some 0
   \<and> map_option (map (\<lambda>r. (rowRouteId r, map store (rowStops r), totalDistance (rowMetrics r),
                             rowCost r)))
        (generatePlan 5 [mkShipment ''S9'' Ambient 12, mkShipment ''S9'' Ambient 10] [exCarrier] exCtx)
      = Some [(''HB_1'', [''S9'', ''S9''], 0, 100)]
   \<and> checkAndScoreInsertion (mkShipment ''S9'' Ambient 5) (mkRoute [mkShipment ''S1'' Ambient 5]) exCtx
      = None"
  by code_simp

text \<open>
  C6 (as amended). An accepted insertion is scored as the cost difference, (new total
  distance times cost per mile plus fixed cost) minus (old total distance times cost per
  mile plus fixed cost), plus the difference of the penalties of the proposed and current
  sequences, the penalty being the sum of \<open>(max(0, leg - threshold))\<^sup>2\<close> over the legs between
  consecutive stores only (depot legs excluded).
\<close>

theorem C6_score:
  assumes "checkAndScoreInsertion s rt ctx = Some v"
    and "\<forall>x\<in>set (stops rt @ [s]). store x \<noteq> []"
  shows "v = (totalDistance (calculateRouteMetricsWithHOS
                (advancedOptimizeStopOrder (stops rt @ [s]) (warehouse ctx) (distanceMatrix ctx))
                (warehouse ctx) (distanceMatrix ctx) (detailedDurations ctx)) * costPerMile (carrier rt)
              + costPerRoute (carrier rt))
             - (totalDistance (calculateRouteMetricsWithHOS
                  (advancedOptimizeStopOrder (stops rt) (warehouse ctx) (distanceMatrix ctx))
                  (warehouse ctx) (distanceMatrix ctx) (detailedDurations ctx)) * costPerMile (carrier rt)
                + costPerRoute (carrier rt))
             + (specPenalty (interStoreLegs (distanceMatrix ctx) (uniqueStores
                   (advancedOptimizeStopOrder (stops rt @ [s]) (warehouse ctx) (distanceMatrix ctx))))
                   (num_or (MAX_DISTANCE_BETWEEN_STOPS ctx) 50)
                - specPenalty (interStoreLegs (distanceMatrix ctx) (uniqueStores
                   (advancedOptimizeStopOrder (stops rt) (warehouse ctx) (distanceMatrix ctx))))
                   (num_or (MAX_DISTANCE_BETWEEN_STOPS ctx) 50))"
proof -
  have ne1: "\<forall>x\<in>set (advancedOptimizeStopOrder (stops rt) (warehouse ctx) (distanceMatrix ctx)).
               store x \<noteq> []"
    using assms(2) advancedOptimize_subset [of "stops rt"] by auto
  have ne2: "\<forall>x\<in>set (advancedOptimizeStopOrder (stops rt @ [s]) (warehouse ctx) (distanceMatrix ctx)).
               store x \<noteq> []"
    using assms(2) advancedOptimize_subset [of "stops rt @ [s]"] by blast
  note l1 = getLeg_distances [OF ne1 scorer_accepts(2) [OF assms(1)]]
  note l2 = getLeg_distances [OF ne2 scorer_accepts(3) [OF assms(1)]]
  from scorer_accepts(7) [OF assms(1)] show ?thesis
    by (simp only: l1 l2 penalty_refines preferredLegThreshold_def)
qed

text \<open>C6, witness: adding a second store over a 70-mile leg.\<close>

theorem C6_witness:
  "checkAndScoreInsertion (mkShipment ''S3'' Ambient 5) (mkRoute [mkShipment ''S1'' Ambient 5]) exCtx
     = Some 340
   \<and> (340::real) = (220 * 2 + 100) - (100 * 2 + 100) + (specPenalty [70] 60 - specPenalty [] 60)"
proof -
  have a: "checkAndScoreInsertion (mkShipment ''S3'' Ambient 5)
             (mkRoute [mkShipment ''S1'' Ambient 5]) exCtx = Some 340"
    by code_simp
  have n: "\<forall>x\<in>set (stops (mkRoute [mkShipment ''S1'' Ambient 5]) @ [mkShipment ''S3'' Ambient 5]).
             store x \<noteq> []"
    by (simp add: mkRoute_def mkShipment_def)
  have "(340::real) = (220 * 2 + 100) - (100 * 2 + 100) + (specPenalty [70] 60 - specPenalty [] 60)"
    by (simp add: specPenalty_def)
  with C6_score [OF a n] a show ?thesis by simp
qed

text \<open>
  C6, counterexample to the claim as stated: for a single stop 100 miles from the depot the
  returned score is 400, while the formula with the penalty over all legs gives 3600.
\<close>

theorem C6_counterexample:
  "checkAndScoreInsertion (mkShipment ''S3'' Ambient 5) (mkRoute []) exCtx = Some 400
   \<and> claimedScore (mkShipment ''S3'' Ambient 5) (mkRoute []) exCtx = 3600"
  by code_simp

text \<open>
  C4. Before accruing a leg whose duration carries the accumulated on-duty time past
  480 minutes times (breaks taken + 1), the Duty-Cycle Simulator adds one 30-minute break;
  otherwise none. Every store visit and the return leg to the depot go through the same
  step. On-duty time is
  stop time plus travel time plus 30 minutes per break, and the status is ON_DUTY_VIOLATION
  when on-duty time exceeds 840 minutes, else DRIVING_VIOLATION when travel time exceeds
  660 minutes, else OK.
\<close>

theorem C4_duty_cycle:
  "(accOnDuty a + duration l > real (accBreaks a + 1) * 480 \<longrightarrow>
      accBreaks (accrueLeg (Some l) a) = accBreaks a + 1
      \<and> accOnDuty (accrueLeg (Some l) a) = accOnDuty a + 30 + duration l)
   \<and> (\<not> accOnDuty a + duration l > real (accBreaks a + 1) * 480 \<longrightarrow>
      accBreaks (accrueLeg (Some l) a) = accBreaks a
      \<and> accOnDuty (accrueLeg (Some l) a) = accOnDuty a + duration l)
   \<and> accBreaks (visitStore dm dd ss a st) = accBreaks (accrueLeg (dm (accLocation a) st) a)
   \<and> accOnDuty (visitStore dm dd ss a st)
       = accOnDuty (accrueLeg (dm (accLocation a) st) a) + timeAtStop dd ss st
   \<and> hosRun ss wh dm dd
       = accrueLeg (dm (last (wh # uniqueStores ss)) wh)
           (foldl (visitStore dm dd ss) (hosStart dd ss wh) (uniqueStores ss))
   \<and> accOnDuty (hosRun ss wh dm dd)
       = accStop (hosRun ss wh dm dd) + accTravel (hosRun ss wh dm dd)
         + 30 * real (accBreaks (hosRun ss wh dm dd))
   \<and> totalDuration (calculateRouteMetricsWithHOS ss wh dm dd) = js_round (accOnDuty (hosRun ss wh dm dd))
   \<and> hosStatus (calculateRouteMetricsWithHOS ss wh dm dd)
       = (if accOnDuty (hosRun ss wh dm dd) > 14 * 60 then ON_DUTY_VIOLATION
          else if accTravel (hosRun ss wh dm dd) > 11 * 60 then DRIVING_VIOLATION
          else OK)"
proof -
  have vis: "accBreaks (visitStore dm dd ss a st) = accBreaks (accrueLeg (dm (accLocation a) st) a)"
    "accOnDuty (visitStore dm dd ss a st)
       = accOnDuty (accrueLeg (dm (accLocation a) st) a) + timeAtStop dd ss st"
    by (simp_all add: visitStore_def Let_def)
  have loc: "accLocation (foldl (visitStore dm dd ss) (hosStart dd ss wh) (uniqueStores ss))
             = last (wh # uniqueStores ss)"
    using foldl_visit_fields [of dm dd ss "hosStart dd ss wh" "uniqueStores ss"]
    by (simp add: hosStart_def Let_def)
  have run: "hosRun ss wh dm dd
       = accrueLeg (dm (last (wh # uniqueStores ss)) wh)
           (foldl (visitStore dm dd ss) (hosStart dd ss wh) (uniqueStores ss))"
    unfolding hosRun_def Let_def loc ..
  have bal: "accOnDuty (hosRun ss wh dm dd)
       = accStop (hosRun ss wh dm dd) + accTravel (hosRun ss wh dm dd)
         + 30 * real (accBreaks (hosRun ss wh dm dd))"
    using hosRun_balanced [of ss wh dm dd] by (simp add: accBalanced_def)
  have st: "hosStatus (calculateRouteMetricsWithHOS ss wh dm dd)
       = (if accOnDuty (hosRun ss wh dm dd) > 14 * 60 then ON_DUTY_VIOLATION
          else if accTravel (hosRun ss wh dm dd) > 11 * 60 then DRIVING_VIOLATION
          else OK)"
    by (simp add: calculateRouteMetricsWithHOS_def hosFinal_def Let_def)
  have td: "totalDuration (calculateRouteMetricsWithHOS ss wh dm dd)
            = js_round (accOnDuty (hosRun ss wh dm dd))"
    by (simp add: calculateRouteMetricsWithHOS_def Let_def)
  have leg: "(accOnDuty a + duration l > real (accBreaks a + 1) * 480 \<longrightarrow>
      accBreaks (accrueLeg (Some l) a) = accBreaks a + 1
      \<and> accOnDuty (accrueLeg (Some l) a) = accOnDuty a + 30 + duration l)
   \<and> (\<not> accOnDuty a + duration l > real (accBreaks a + 1) * 480 \<longrightarrow>
      accBreaks (accrueLeg (Some l) a) = accBreaks a
      \<and> accOnDuty (accrueLeg (Some l) a) = accOnDuty a + duration l)"
    by (simp add: accrueLeg_def Let_def)
  from leg vis run bal td st show ?thesis by (intro conjI) simp_all
qed

text \<open>C4, witness (Scenario D): on-duty time 465 before a 16-minute return leg.\<close>

theorem C4_witness:
  "accOnDuty (foldl (visitStore exMatrix (\<lambda>_ _. None) [mkShipment ''S4'' Ambient 5])
       (hosStart (\<lambda>_ _. None) [mkShipment ''S4'' Ambient 5] ''US0007'') [''S4'']) = 465
   \<and> accBreaks (hosRun [mkShipment ''S4'' Ambient 5] ''US0007'' exMatrix (\<lambda>_ _. None)) = 1
   \<and> totalDuration (calculateRouteMetricsWithHOS [mkShipment ''S4'' Ambient 5] ''US0007'' exMatrix
        (\<lambda>_ _. None)) = 511
   \<and> hosStatus (calculateRouteMetricsWithHOS [mkShipment ''S4'' Ambient 5] ''US0007'' exMatrix
        (\<lambda>_ _. None)) = OK"
proof -
  let ?ss = "[mkShipment ''S4'' Ambient 5]"
  let ?dd = "(\<lambda>_ _. None) :: store \<Rightarrow> string option \<Rightarrow> pdur option"
  let ?a = "foldl (visitStore exMatrix ?dd ?ss) (hosStart ?dd ?ss ''US0007'') [''S4'']"
  let ?l = "\<lparr>distance = 30, duration = 16\<rparr> :: leg"
  have u: "uniqueStores ?ss = [''S4'']" by code_simp
  have a: "accOnDuty ?a = 465" "accBreaks ?a = 0" "accTravel ?a = 450" "accStop ?a = 15"
    by code_simp+
  have l: "exMatrix (last (''US0007'' # uniqueStores ?ss)) ''US0007'' = Some ?l"
    unfolding u by (simp add: exMatrix_def mkLeg_def)
  have p: "accOnDuty ?a + duration ?l > real (accBreaks ?a + 1) * 480"
    unfolding a by simp
  note t = C4_duty_cycle [where a = ?a and l = ?l and ss = ?ss and wh = "''US0007''"
      and dm = exMatrix and dd = ?dd and st = "''S4''"]
  from t p have b: "accBreaks (accrueLeg (Some ?l) ?a) = accBreaks ?a + 1"
    and d: "accOnDuty (accrueLeg (Some ?l) ?a) = accOnDuty ?a + 30 + duration ?l"
    by blast+
  from t have "hosRun ?ss ''US0007'' exMatrix ?dd
       = accrueLeg (exMatrix (last (''US0007'' # uniqueStores ?ss)) ''US0007'')
           (foldl (visitStore exMatrix ?dd ?ss) (hosStart ?dd ?ss ''US0007'') (uniqueStores ?ss))"
    by blast
  then have r: "hosRun ?ss ''US0007'' exMatrix ?dd = accrueLeg (Some ?l) ?a"
    by (simp only: l) (simp only: u)
  from t have td: "totalDuration (calculateRouteMetricsWithHOS ?ss ''US0007'' exMatrix ?dd)
                   = js_round (accOnDuty (hosRun ?ss ''US0007'' exMatrix ?dd))"
    by blast
  from t have hs: "hosStatus (calculateRouteMetricsWithHOS ?ss ''US0007'' exMatrix ?dd)
       = (if accOnDuty (hosRun ?ss ''US0007'' exMatrix ?dd) > 14 * 60 then ON_DUTY_VIOLATION
          else if accTravel (hosRun ?ss ''US0007'' exMatrix ?dd) > 11 * 60 then DRIVING_VIOLATION
          else OK)"
    by blast
  have B: "accBreaks (hosRun ?ss ''US0007'' exMatrix ?dd) = 1"
    unfolding r b a by simp
  have D: "accOnDuty (hosRun ?ss ''US0007'' exMatrix ?dd) = 511"
    unfolding r d a by simp
  have T: "accTravel (hosRun ?ss ''US0007'' exMatrix ?dd) = 466"
    by code_simp
  have TD: "totalDuration (calculateRouteMetricsWithHOS ?ss ''US0007'' exMatrix ?dd) = 511"
    unfolding td D by (simp add: js_round_def)
  have HS: "hosStatus (calculateRouteMetricsWithHOS ?ss ''US0007'' exMatrix ?dd) = OK"
    unfolding hs D T by simp
  from a(1) B TD HS show ?thesis by (intro conjI)
qed

text \<open>
  C10. The simulator's total distance and travel time are the sums, over the consecutive
  pairs of depot, stores, depot, of the forward matrix entry, an absent entry counting as
  zero whatever the reverse entry is; the simulator always returns, and against any matrix
  that fills the gaps with non-negative legs its distance, travel time and on-duty time,
  the reported (rounded) figures and the cost computed from the reported mileage at a
  non-negative rate per mile are no larger.
\<close>

theorem C10_missing_legs_skipped:
  "accDistance (hosRun ss wh dm dd)
     = sum_list (map (fwdDistance dm) (pairs (wh # uniqueStores ss @ [wh])))
   \<and> accTravel (hosRun ss wh dm dd)
     = sum_list (map (fwdDuration dm) (pairs (wh # uniqueStores ss @ [wh])))
   \<and> (dm x y = None \<longrightarrow> fwdDistance dm (x, y) = 0 \<and> fwdDuration dm (x, y) = 0)
   \<and> totalDistance (calculateRouteMetricsWithHOS ss wh dm dd) = js_round (accDistance (hosRun ss wh dm dd))
   \<and> travelTime (calculateRouteMetricsWithHOS ss wh dm dd) = js_round (accTravel (hosRun ss wh dm dd))
   \<and> totalDuration (calculateRouteMetricsWithHOS ss wh dm dd) = js_round (accOnDuty (hosRun ss wh dm dd))
   \<and> ((\<forall>x y. dm x y = dm' x y
              \<or> (dm x y = None \<and> (\<exists>l. dm' x y = Some l \<and> 0 \<le> duration l \<and> 0 \<le> distance l)))
        \<longrightarrow> accDistance (hosRun ss wh dm dd) \<le> accDistance (hosRun ss wh dm' dd)
            \<and> accTravel (hosRun ss wh dm dd) \<le> accTravel (hosRun ss wh dm' dd)
            \<and> accOnDuty (hosRun ss wh dm dd) \<le> accOnDuty (hosRun ss wh dm' dd)
            \<and> totalDistance (calculateRouteMetricsWithHOS ss wh dm dd)
                \<le> totalDistance (calculateRouteMetricsWithHOS ss wh dm' dd)
            \<and> travelTime (calculateRouteMetricsWithHOS ss wh dm dd)
                \<le> travelTime (calculateRouteMetricsWithHOS ss wh dm' dd)
            \<and> totalDuration (calculateRouteMetricsWithHOS ss wh dm dd)
                \<le> totalDuration (calculateRouteMetricsWithHOS ss wh dm' dd)
            \<and> (0 \<le> perMile \<longrightarrow>
                  totalDistance (calculateRouteMetricsWithHOS ss wh dm dd) * perMile + perRoute
                  \<le> totalDistance (calculateRouteMetricsWithHOS ss wh dm' dd) * perMile + perRoute))"
proof -
  have under0: "accDistance (hosRun ss wh dm dd) \<le> accDistance (hosRun ss wh dm' dd)
            \<and> accTravel (hosRun ss wh dm dd) \<le> accTravel (hosRun ss wh dm' dd)
            \<and> accOnDuty (hosRun ss wh dm dd) \<le> accOnDuty (hosRun ss wh dm' dd)"
    if h: "\<forall>x y. dm x y = dm' x y
              \<or> (dm x y = None \<and> (\<exists>l. dm' x y = Some l \<and> 0 \<le> duration l \<and> 0 \<le> distance l))"
  proof -
    have d: "fwdDistance dm p \<le> fwdDistance dm' p" for p
      using h [rule_format, of "fst p" "snd p"]
      by (auto simp: fwdDistance_def split: option.splits)
    have "sum_list (map (fwdDistance dm) (pairs (wh # uniqueStores ss @ [wh])))
          \<le> sum_list (map (fwdDistance dm') (pairs (wh # uniqueStores ss @ [wh])))"
      by (rule sum_list_mono) (rule d)
    then have dist: "accDistance (hosRun ss wh dm dd) \<le> accDistance (hosRun ss wh dm' dd)"
      by (simp add: hosRun_sums)
    have h': "\<forall>x y. dm x y = dm' x y \<or> (dm x y = None \<and> (\<exists>l. dm' x y = Some l \<and> 0 \<le> duration l))"
      using h by blast
    let ?F = "foldl (visitStore dm dd ss) (hosStart dd ss wh) (uniqueStores ss)"
    let ?F' = "foldl (visitStore dm' dd ss) (hosStart dd ss wh) (uniqueStores ss)"
    have "accLe (hosStart dd ss wh) (hosStart dd ss wh)" by (simp add: accLe_def)
    then have le: "accLe ?F ?F'"
      using h' by (intro foldl_visit_mono) auto
    have loc: "accLocation ?F = accLocation ?F'"
      using foldl_visit_fields [of dm dd ss "hosStart dd ss wh" "uniqueStores ss"]
        foldl_visit_fields [of dm' dd ss "hosStart dd ss wh" "uniqueStores ss"]
      by simp
    have "accLe (accrueLeg (dm (accLocation ?F) wh) ?F) (accrueLeg (dm' (accLocation ?F') wh) ?F')"
      using le h' [rule_format, of "accLocation ?F" wh] unfolding loc [symmetric]
      by (intro accrueLeg_mono) auto
    then have run: "accLe (hosRun ss wh dm dd) (hosRun ss wh dm' dd)"
      by (simp add: hosRun_def Let_def)
    from run have "accTravel (hosRun ss wh dm dd) \<le> accTravel (hosRun ss wh dm' dd)"
      by (simp add: accLe_def)
    with dist accLe_onDuty [OF run] show ?thesis by simp
  qed
  have under: "accDistance (hosRun ss wh dm dd) \<le> accDistance (hosRun ss wh dm' dd)
            \<and> accTravel (hosRun ss wh dm dd) \<le> accTravel (hosRun ss wh dm' dd)
            \<and> accOnDuty (hosRun ss wh dm dd) \<le> accOnDuty (hosRun ss wh dm' dd)
            \<and> totalDistance (calculateRouteMetricsWithHOS ss wh dm dd)
                \<le> totalDistance (calculateRouteMetricsWithHOS ss wh dm' dd)
            \<and> travelTime (calculateRouteMetricsWithHOS ss wh dm dd)
                \<le> travelTime (calculateRouteMetricsWithHOS ss wh dm' dd)
            \<and> totalDuration (calculateRouteMetricsWithHOS ss wh dm dd)
                \<le> totalDuration (calculateRouteMetricsWithHOS ss wh dm' dd)
            \<and> (0 \<le> perMile \<longrightarrow>
                  totalDistance (calculateRouteMetricsWithHOS ss wh dm dd) * perMile + perRoute
                  \<le> totalDistance (calculateRouteMetricsWithHOS ss wh dm' dd) * perMile + perRoute)"
    if h: "\<forall>x y. dm x y = dm' x y
              \<or> (dm x y = None \<and> (\<exists>l. dm' x y = Some l \<and> 0 \<le> duration l \<and> 0 \<le> distance l))"
  proof -
    note u = under0 [OF h]
    have d: "totalDistance (calculateRouteMetricsWithHOS ss wh dm dd)
                \<le> totalDistance (calculateRouteMetricsWithHOS ss wh dm' dd)"
      using u by (simp add: calculateRouteMetricsWithHOS_def Let_def js_round_mono)
    have t: "travelTime (calculateRouteMetricsWithHOS ss wh dm dd)
                \<le> travelTime (calculateRouteMetricsWithHOS ss wh dm' dd)"
      using u by (simp add: calculateRouteMetricsWithHOS_def Let_def js_round_mono)
    have o: "totalDuration (calculateRouteMetricsWithHOS ss wh dm dd)
                \<le> totalDuration (calculateRouteMetricsWithHOS ss wh dm' dd)"
      using u by (simp add: calculateRouteMetricsWithHOS_def Let_def js_round_mono)
    have c: "0 \<le> perMile \<longrightarrow>
                  totalDistance (calculateRouteMetricsWithHOS ss wh dm dd) * perMile + perRoute
                  \<le> totalDistance (calculateRouteMetricsWithHOS ss wh dm' dd) * perMile + perRoute"
      using d by (simp add: mult_right_mono)
    from u d t o c show ?thesis by (intro conjI) simp_all
  qed
  have z: "dm x y = None \<longrightarrow> fwdDistance dm (x, y) = 0 \<and> fwdDuration dm (x, y) = 0"
    by (simp add: fwdDistance_def fwdDuration_def)
  have m: "totalDistance (calculateRouteMetricsWithHOS ss wh dm dd) = js_round (accDistance (hosRun ss wh dm dd))"
    "travelTime (calculateRouteMetricsWithHOS ss wh dm dd) = js_round (accTravel (hosRun ss wh dm dd))"
    "totalDuration (calculateRouteMetricsWithHOS ss wh dm dd) = js_round (accOnDuty (hosRun ss wh dm dd))"
    by (simp_all add: calculateRouteMetricsWithHOS_def Let_def)
  from hosRun_sums [of ss wh dm dd] z m under show ?thesis
    by (intro conjI impI) blast+
qed


text \<open>C10, witness: the leg S3 to S1 is absent although S1 to S3 is known.\<close>

theorem C10_witness:
  "exMatrix ''S3'' ''S1'' = None \<and> exMatrix ''S1'' ''S3'' \<noteq> None
   \<and> accDistance (hosRun [mkShipment ''S3'' Ambient 5, mkShipment ''S1'' Ambient 5] ''US0007''
        exMatrix (\<lambda>_ _. None)) = 150
   \<and> accDistance (hosRun [mkShipment ''S3'' Ambient 5, mkShipment ''S1'' Ambient 5] ''US0007''
        exMatrixFull (\<lambda>_ _. None)) = 220
   \<and> accOnDuty (hosRun [mkShipment ''S3'' Ambient 5, mkShipment ''S1'' Ambient 5] ''US0007''
        exMatrix (\<lambda>_ _. None))
     \<le> accOnDuty (hosRun [mkShipment ''S3'' Ambient 5, mkShipment ''S1'' Ambient 5] ''US0007''
        exMatrixFull (\<lambda>_ _. None))"
proof -
  let ?ss = "[mkShipment ''S3'' Ambient 5, mkShipment ''S1'' Ambient 5]"
  let ?dd = "(\<lambda>_ _. None) :: store \<Rightarrow> string option \<Rightarrow> pdur option"
  have m: "exMatrix ''S3'' ''S1'' = None" "exMatrix ''S1'' ''S3'' \<noteq> None"
    by (simp_all add: exMatrix_def mkLeg_def)
  have h: "\<forall>x y. exMatrix x y = exMatrixFull x y
              \<or> (exMatrix x y = None
                  \<and> (\<exists>l. exMatrixFull x y = Some l \<and> 0 \<le> duration l \<and> 0 \<le> distance l))"
    by (simp add: exMatrixFull_def exMatrix_def mkLeg_def)
  note t = C10_missing_legs_skipped [of ?ss "''US0007''" exMatrix ?dd "''S3''" "''S1''" exMatrixFull]
  from t h have le: "accOnDuty (hosRun ?ss ''US0007'' exMatrix ?dd)
                     \<le> accOnDuty (hosRun ?ss ''US0007'' exMatrixFull ?dd)"
    by blast
  from t m(1) have z: "fwdDistance exMatrix (''S3'', ''S1'') = 0" by blast
  have p: "pairs (''US0007'' # uniqueStores ?ss @ [''US0007''])
           = [(''US0007'', ''S3''), (''S3'', ''S1''), (''S1'', ''US0007'')]"
    by code_simp
  from t have "accDistance (hosRun ?ss ''US0007'' exMatrix ?dd)
     = sum_list (map (fwdDistance exMatrix) (pairs (''US0007'' # uniqueStores ?ss @ [''US0007''])))"
    by blast
  then have d1: "accDistance (hosRun ?ss ''US0007'' exMatrix ?dd) = 150"
    unfolding p by (simp add: z) (simp add: fwdDistance_def exMatrix_def mkLeg_def)
  have d2: "accDistance (hosRun ?ss ''US0007'' exMatrixFull ?dd) = 220"
    by code_simp
  from m d1 d2 le show ?thesis by (intro conjI)
qed

text \<open>
  C7 (as amended). Appending a stop whose loading and unloading times are non-negative never
  decreases travel time or on-duty time, provided that, when the stop is at a store not yet
  in the sequence, the legs from the last location to the new store and from the new store
  to the depot are known and together last at least as long as the old return leg.
\<close>

theorem C7_append_monotone:
  assumes "0 \<le> loadingTime dd s" and "0 \<le> unloadingTime dd s"
    and "store s \<notin> store ` set ss \<longrightarrow>
           (\<exists>d1 d2. dm (last (wh # uniqueStores ss)) (store s) = Some d1
                    \<and> dm (store s) wh = Some d2
                    \<and> fwdDuration dm (last (wh # uniqueStores ss), wh) \<le> duration d1 + duration d2)"
  shows "accTravel (hosRun ss wh dm dd) \<le> accTravel (hosRun (ss @ [s]) wh dm dd)
         \<and> accOnDuty (hosRun ss wh dm dd) \<le> accOnDuty (hosRun (ss @ [s]) wh dm dd)
         \<and> travelTime (calculateRouteMetricsWithHOS ss wh dm dd)
             \<le> travelTime (calculateRouteMetricsWithHOS (ss @ [s]) wh dm dd)
         \<and> totalDuration (calculateRouteMetricsWithHOS ss wh dm dd)
             \<le> totalDuration (calculateRouteMetricsWithHOS (ss @ [s]) wh dm dd)"
proof -
  let ?us = "uniqueStores ss"
  define L where "L = last (wh # uniqueStores ss)"
  let ?F = "foldl (visitStore dm dd ss) (hosStart dd ss wh) ?us"
  let ?F' = "foldl (visitStore dm dd (ss @ [s])) (hosStart dd (ss @ [s]) wh) ?us"
  have tm: "\<forall>st. timeAtStop dd ss st \<le> timeAtStop dd (ss @ [s]) st"
    using assms(2) by (simp add: timeAtStop_snoc)
  have sl: "accLocation (hosStart dd ss wh) = accLocation (hosStart dd (ss @ [s]) wh)"
    by (simp add: hosStart_def Let_def)
  have le: "accLe ?F ?F'"
    using tm hosStart_mono [OF assms(1)] sl by (intro foldl_visit_mono) auto
  have loc: "accLocation ?F = L" "accLocation ?F' = L"
    using foldl_visit_fields [of dm dd ss "hosStart dd ss wh" ?us]
      foldl_visit_fields [of dm dd "ss @ [s]" "hosStart dd (ss @ [s]) wh" ?us]
    by (simp_all add: hosStart_def Let_def L_def)
  have run: "hosRun ss wh dm dd = accrueLeg (dm (L) wh) ?F"
    by (simp add: hosRun_def Let_def loc)
  have main: "accTravel (hosRun ss wh dm dd) \<le> accTravel (hosRun (ss @ [s]) wh dm dd)
         \<and> accOnDuty (hosRun ss wh dm dd) \<le> accOnDuty (hosRun (ss @ [s]) wh dm dd)"
  proof (cases "store s \<in> store ` set ss")
    case True
    then have "hosRun (ss @ [s]) wh dm dd = accrueLeg (dm (L) wh) ?F'"
      by (simp add: hosRun_def Let_def loc uniqueStores_snoc)
    moreover have "accLe (accrueLeg (dm (L) wh) ?F)
                         (accrueLeg (dm (L) wh) ?F')"
      using le by (intro accrueLeg_mono) auto
    ultimately have "accLe (hosRun ss wh dm dd) (hosRun (ss @ [s]) wh dm dd)"
      using run by simp
    then show ?thesis using accLe_onDuty by (auto simp: accLe_def)
  next
    case False
    with assms(3) [folded L_def] obtain d1 d2 where
      d1: "dm (L) (store s) = Some d1" and d2: "dm (store s) wh = Some d2"
      and tri: "fwdDuration dm (L, wh) \<le> duration d1 + duration d2"
      by blast
    have t0: "timeAtStop dd (ss @ [s]) (store s) = unloadingTime dd s"
      using False by (simp add: timeAtStop_snoc timeAtStop_absent)
    let ?G = "(accrueLeg (Some d1) ?F')\<lparr>accStop := accStop (accrueLeg (Some d1) ?F') + unloadingTime dd s,
                 accOnDuty := accOnDuty (accrueLeg (Some d1) ?F') + unloadingTime dd s,
                 accLocation := store s\<rparr>"
    have "foldl (visitStore dm dd (ss @ [s])) (hosStart dd (ss @ [s]) wh) (uniqueStores (ss @ [s]))
          = visitStore dm dd (ss @ [s]) ?F' (store s)"
      using False by (simp add: uniqueStores_snoc)
    also have "\<dots> = ?G"
      by (simp add: visitStore_def Let_def loc d1 t0)
    finally have "hosRun (ss @ [s]) wh dm dd = accrueLeg (Some d2) ?G"
      by (simp add: hosRun_def Let_def d2)
    then show ?thesis
      using detour_onDuty [OF le assms(2) tri, where n = "store s"]
        detour_travel [OF le tri, where u = "unloadingTime dd s" and n = "store s"] run
      by simp
  qed
  then show ?thesis
    by (simp add: calculateRouteMetricsWithHOS_def Let_def js_round_mono)
qed

text \<open>C7, witness: appending S3 after S1.\<close>

theorem C7_witness:
  "accTravel (hosRun [mkShipment ''S1'' Ambient 5] ''US0007'' exMatrix (\<lambda>_ _. None))
     \<le> accTravel (hosRun ([mkShipment ''S1'' Ambient 5] @ [mkShipment ''S3'' Ambient 5]) ''US0007''
          exMatrix (\<lambda>_ _. None))
   \<and> totalDuration (calculateRouteMetricsWithHOS [mkShipment ''S1'' Ambient 5] ''US0007'' exMatrix
        (\<lambda>_ _. None))
     \<le> totalDuration (calculateRouteMetricsWithHOS
          ([mkShipment ''S1'' Ambient 5] @ [mkShipment ''S3'' Ambient 5]) ''US0007'' exMatrix
          (\<lambda>_ _. None))"
proof -
  let ?dd = "(\<lambda>_ _. None) :: store \<Rightarrow> string option \<Rightarrow> pdur option"
  let ?s = "mkShipment ''S3'' Ambient 5"
  let ?ss = "[mkShipment ''S1'' Ambient 5]"
  have a: "0 \<le> loadingTime ?dd ?s" "0 \<le> unloadingTime ?dd ?s"
    by (simp_all add: loadingTime_def unloadingTime_def)
  have u: "last (''US0007'' # uniqueStores ?ss) = ''S1''" by code_simp
  have b: "store ?s \<notin> store ` set ?ss \<longrightarrow>
           (\<exists>d1 d2. exMatrix (last (''US0007'' # uniqueStores ?ss)) (store ?s) = Some d1
                    \<and> exMatrix (store ?s) ''US0007'' = Some d2
                    \<and> fwdDuration exMatrix (last (''US0007'' # uniqueStores ?ss), ''US0007'')
                        \<le> duration d1 + duration d2)"
    unfolding u by (simp add: mkShipment_def exMatrix_def mkLeg_def fwdDuration_def)
  from C7_append_monotone [OF a b] show ?thesis by blast
qed

text \<open>
  C7, counterexample to the claim as stated: appending a stop whose legs are unknown
  removes the return leg and lowers both travel time and total duration.
\<close>

theorem C7_counterexample:
  "accTravel (hosRun ([mkShipment ''S1'' Ambient 5] @ [mkShipment ''S9'' Ambient 5]) ''US0007''
      exMatrix (\<lambda>_ _. None))
     < accTravel (hosRun [mkShipment ''S1'' Ambient 5] ''US0007'' exMatrix (\<lambda>_ _. None))
   \<and> travelTime (calculateRouteMetricsWithHOS
         ([mkShipment ''S1'' Ambient 5] @ [mkShipment ''S9'' Ambient 5]) ''US0007'' exMatrix
         (\<lambda>_ _. None)) = 60
   \<and> travelTime (calculateRouteMetricsWithHOS [mkShipment ''S1'' Ambient 5] ''US0007'' exMatrix
         (\<lambda>_ _. None)) = 120
   \<and> totalDuration (calculateRouteMetricsWithHOS
         ([mkShipment ''S1'' Ambient 5] @ [mkShipment ''S9'' Ambient 5]) ''US0007'' exMatrix
         (\<lambda>_ _. None)) = 90
   \<and> totalDuration (calculateRouteMetricsWithHOS [mkShipment ''S1'' Ambient 5] ''US0007'' exMatrix
         (\<lambda>_ _. None)) = 135"
  by code_simp

text \<open>
  C8 (as amended). Applying the Stop Sequencer to its own output yields the same ordering.
  In the store order of its output, whenever two stores of the same temperature group (both
  with a Chiller or Freezer stop, or both without) are equally far from the location before
  the first of them (the depot for the first store, otherwise the store just before it), the
  one visited first is the one that comes first in the enumeration order of the store keys:
  ids that are canonical array indices in ascending numeric order, then the other ids in
  order of first occurrence. Being a function of the stop list, the depot and the distance
  matrix, the ordering is deterministic.
\<close>

theorem C8_sequencer_ties_idempotent:
  "advancedOptimizeStopOrder (advancedOptimizeStopOrder ss wh dm) wh dm
     = advancedOptimizeStopOrder ss wh dm
   \<and> (\<forall>i j l l'.
        i < j \<and> j < length (uniqueStores (advancedOptimizeStopOrder ss wh dm))
        \<and> hasCold ss (uniqueStores (advancedOptimizeStopOrder ss wh dm) ! i)
          = hasCold ss (uniqueStores (advancedOptimizeStopOrder ss wh dm) ! j)
        \<and> dm (if i = 0 then wh else uniqueStores (advancedOptimizeStopOrder ss wh dm) ! (i - 1))
             (uniqueStores (advancedOptimizeStopOrder ss wh dm) ! i) = Some l
        \<and> dm (if i = 0 then wh else uniqueStores (advancedOptimizeStopOrder ss wh dm) ! (i - 1))
             (uniqueStores (advancedOptimizeStopOrder ss wh dm) ! j) = Some l'
        \<and> distance l = distance l'
        \<longrightarrow> precedes (js_keys (uniqueStores ss))
              (uniqueStores (advancedOptimizeStopOrder ss wh dm) ! i)
              (uniqueStores (advancedOptimizeStopOrder ss wh dm) ! j))"
proof
  show "advancedOptimizeStopOrder (advancedOptimizeStopOrder ss wh dm) wh dm
     = advancedOptimizeStopOrder ss wh dm"
  proof (cases "length ss \<le> 1")
    case True
    then show ?thesis by (simp add: advancedOptimizeStopOrder_def)
  next
    case False
    define order where "order = storeOrder ss wh dm"
    define out where "out = concat (map (\<lambda>st. filter (\<lambda>s. store s = st) ss) order)"
    have out: "advancedOptimizeStopOrder ss wh dm = out"
      using False by (simp add: advancedOptimizeStopOrder_def out_def order_def)
    have ord: "order = sequenceKeys (hasCold ss) wh dm (uniqueStores ss)"
      by (simp add: order_def storeOrder_alt)
    have dU: "distinct (uniqueStores ss)" by (simp add: uniqueStores_def)
    have dO: "distinct order" unfolding ord using dU by (rule sequenceKeys_distinct)
    have sO: "set order = store ` set ss" by (simp add: ord sequenceKeys_set)
    have grp: "filter (\<lambda>s. store s = st) out = filter (\<lambda>s. store s = st) ss" for st
    proof (cases "st \<in> set order")
      case True
      then show ?thesis unfolding out_def by (simp add: filter_groups [OF dO])
    next
      case False
      with sO have "filter (\<lambda>s. store s = st) ss = []" by (auto simp: filter_empty_conv)
      with False show ?thesis unfolding out_def by (simp add: filter_groups [OF dO])
    qed
    have cold: "hasCold out = hasCold ss"
      by (rule ext) (simp add: hasCold_filter grp)
    have us: "uniqueStores out = order"
      unfolding uniqueStores_def out_def
    proof (rule uniq_groups [OF dO])
      show "\<forall>st\<in>set order. filter (\<lambda>s. store s = st) ss \<noteq> []
              \<and> (\<forall>s\<in>set (filter (\<lambda>s. store s = st) ss). store s = st)"
        using sO by (auto simp: filter_empty_conv)
    qed
    have so: "storeOrder out wh dm = order"
      unfolding storeOrder_alt cold us ord using dU by (rule sequenceKeys_idem)
    show ?thesis
    proof (cases "length out \<le> 1")
      case True
      then have "advancedOptimizeStopOrder out wh dm = out"
        by (simp add: advancedOptimizeStopOrder_def)
      then show ?thesis by (simp only: out)
    next
      case False
      then have "advancedOptimizeStopOrder out wh dm
                 = concat (map (\<lambda>st. filter (\<lambda>s. store s = st) out) (storeOrder out wh dm))"
        by (simp add: advancedOptimizeStopOrder_def)
      also have "\<dots> = out" by (simp only: so grp out_def [symmetric])
      finally show ?thesis by (simp only: out)
    qed
  qed
next
  have dU: "distinct (uniqueStores ss)" by (simp add: uniqueStores_def)
  show "\<forall>i j l l'.
        i < j \<and> j < length (uniqueStores (advancedOptimizeStopOrder ss wh dm))
        \<and> hasCold ss (uniqueStores (advancedOptimizeStopOrder ss wh dm) ! i)
          = hasCold ss (uniqueStores (advancedOptimizeStopOrder ss wh dm) ! j)
        \<and> dm (if i = 0 then wh else uniqueStores (advancedOptimizeStopOrder ss wh dm) ! (i - 1))
             (uniqueStores (advancedOptimizeStopOrder ss wh dm) ! i) = Some l
        \<and> dm (if i = 0 then wh else uniqueStores (advancedOptimizeStopOrder ss wh dm) ! (i - 1))
             (uniqueStores (advancedOptimizeStopOrder ss wh dm) ! j) = Some l'
        \<and> distance l = distance l'
        \<longrightarrow> precedes (js_keys (uniqueStores ss))
              (uniqueStores (advancedOptimizeStopOrder ss wh dm) ! i)
              (uniqueStores (advancedOptimizeStopOrder ss wh dm) ! j)"
    unfolding uniqueStores_sequenced
    using sequenceKeys_ties [OF dU] by blast
qed

text \<open>
  C8, witness: stores 7 and 12, without cold stops, are tied at 10 miles from the depot; as
  array indices they are enumerated in numeric order, so the tie goes to 7 although 12
  occurs earlier in the stop list.
\<close>

theorem C8_witness:
  "advancedOptimizeStopOrder
        [mkShipment ''B'' Ambient 1, mkShipment ''12'' Ambient 2, mkShipment ''A'' Chiller 3,
         mkShipment ''7'' Ambient 4, mkShipment ''B'' Chiller 5] ''US0007'' exTie
      = [mkShipment ''7'' Ambient 4, mkShipment ''12'' Ambient 2, mkShipment ''B'' Ambient 1,
         mkShipment ''B'' Chiller 5, mkShipment ''A'' Chiller 3]
   \<and> js_keys (uniqueStores
        [mkShipment ''B'' Ambient 1, mkShipment ''12'' Ambient 2, mkShipment ''A'' Chiller 3,
         mkShipment ''7'' Ambient 4, mkShipment ''B'' Chiller 5]) = [''7'', ''12'', ''B'', ''A'']
   \<and> exTie ''US0007'' ''7'' = mkLeg 10 10 \<and> exTie ''US0007'' ''12'' = mkLeg 10 10
   \<and> precedes (js_keys (uniqueStores
        [mkShipment ''B'' Ambient 1, mkShipment ''12'' Ambient 2, mkShipment ''A'' Chiller 3,
         mkShipment ''7'' Ambient 4, mkShipment ''B'' Chiller 5])) ''7'' ''12''
   \<and> advancedOptimizeStopOrder
        [mkShipment ''7'' Ambient 4, mkShipment ''12'' Ambient 2, mkShipment ''B'' Ambient 1,
         mkShipment ''B'' Chiller 5, mkShipment ''A'' Chiller 3] ''US0007'' exTie
      = [mkShipment ''7'' Ambient 4, mkShipment ''12'' Ambient 2, mkShipment ''B'' Ambient 1,
         mkShipment ''B'' Chiller 5, mkShipment ''A'' Chiller 3]"
proof -
  let ?ss = "[mkShipment ''B'' Ambient 1, mkShipment ''12'' Ambient 2, mkShipment ''A'' Chiller 3,
         mkShipment ''7'' Ambient 4, mkShipment ''B'' Chiller 5]"
  let ?l = "\<lparr>distance = 10, duration = 10\<rparr> :: leg"
  have o: "advancedOptimizeStopOrder ?ss ''US0007'' exTie
      = [mkShipment ''7'' Ambient 4, mkShipment ''12'' Ambient 2, mkShipment ''B'' Ambient 1,
         mkShipment ''B'' Chiller 5, mkShipment ''A'' Chiller 3]"
    by code_simp
  have u: "uniqueStores (advancedOptimizeStopOrder ?ss ''US0007'' exTie) = [''7'', ''12'', ''B'', ''A'']"
    by code_simp
  have k: "js_keys (uniqueStores ?ss) = [''7'', ''12'', ''B'', ''A'']" by code_simp
  have hc: "hasCold ?ss ''7'' = hasCold ?ss ''12''" by code_simp
  have e: "exTie ''US0007'' ''7'' = mkLeg 10 10" "exTie ''US0007'' ''12'' = mkLeg 10 10"
    by (simp_all add: exTie_def)
  note t = C8_sequencer_ties_idempotent [of ?ss "''US0007''" exTie]
  note tie = t [THEN conjunct2, rule_format, of 0 1 ?l ?l]
  have "precedes (js_keys (uniqueStores ?ss))
          (uniqueStores (advancedOptimizeStopOrder ?ss ''US0007'' exTie) ! 0)
          (uniqueStores (advancedOptimizeStopOrder ?ss ''US0007'' exTie) ! 1)"
    by (rule tie) (simp add: u hc e mkLeg_def)
  then have p: "precedes (js_keys (uniqueStores ?ss)) ''7'' ''12''" by (simp add: u)
  from t have "advancedOptimizeStopOrder (advancedOptimizeStopOrder ?ss ''US0007'' exTie) ''US0007'' exTie
               = advancedOptimizeStopOrder ?ss ''US0007'' exTie"
    by blast
  then have i: "advancedOptimizeStopOrder
        [mkShipment ''7'' Ambient 4, mkShipment ''12'' Ambient 2, mkShipment ''B'' Ambient 1,
         mkShipment ''B'' Chiller 5, mkShipment ''A'' Chiller 3] ''US0007'' exTie
      = [mkShipment ''7'' Ambient 4, mkShipment ''12'' Ambient 2, mkShipment ''B'' Ambient 1,
         mkShipment ''B'' Chiller 5, mkShipment ''A'' Chiller 3]"
    by (simp only: o)
  from o k e p i show ?thesis by (intro conjI)
qed

text \<open>
  C8, counterexample to the claim as stated: store 12 occurs first in the stop list and
  store 7 second, both 10 miles from the depot; the sequencer visits 7 first.
\<close>

theorem C8_counterexample:
  "uniqueStores exTiePair = [''12'', ''7'']
   \<and> exTie ''US0007'' ''12'' = mkLeg 10 10 \<and> exTie ''US0007'' ''7'' = mkLeg 10 10
   \<and> map store (advancedOptimizeStopOrder exTiePair ''US0007'' exTie) = [''7'', ''12'']"
  by code_simp

text \<open>
  C9. A tentative swap of one stop of each of two routes is kept exactly when the summed
  route score of the two swapped routes is below the summed score before the swap and both
  swapped routes validate; otherwise the two routes returned are the routes as they were
  (stop lists and pallet totals restored).
\<close>

theorem C9_swap_atomic:
  assumes "si < length (stops route1)" and "sj < length (stops route2)"
  shows "trySwap ctx route1 route2 si sj
         = (if jsLess (jsAdd (calculateRouteScore (swapped route1 si (stops route2 ! sj)) ctx)
                             (calculateRouteScore (swapped route2 sj (stops route1 ! si)) ctx))
                      (jsAdd (calculateRouteScore route1 ctx) (calculateRouteScore route2 ctx))
               \<and> isRouteValid (swapped route1 si (stops route2 ! sj)) ctx
               \<and> isRouteValid (swapped route2 sj (stops route1 ! si)) ctx
            then (swapped route1 si (stops route2 ! sj), swapped route2 sj (stops route1 ! si), True)
            else (route1, route2, False))"
proof -
  have r1: "(stops route1)[si := stops route2 ! sj, si := stops route1 ! si] = stops route1"
    by simp
  have r2: "(stops route2)[sj := stops route1 ! si, sj := stops route2 ! sj] = stops route2"
    by simp
  show ?thesis
    unfolding trySwap_def Let_def swapped_def
    by (simp add: r1 r2)
qed

text \<open>
  C9, witness: a swap that removes the cluster-mixing penalty of both routes is kept; a
  swap that leaves the summed score unchanged is reverted.
\<close>

theorem C9_witness:
  "trySwap exCtx exRouteX exRouteY 1 1
     = (swapped exRouteX 1 (inCluster ''X'' (mkShipment ''D'' Ambient 5)),
        swapped exRouteY 1 (inCluster ''Y'' (mkShipment ''B'' Ambient 5)), True)
   \<and> trySwap exCtx exRouteX exRouteY 0 1 = (exRouteX, exRouteY, False)"
proof -
  have l: "(1::nat) < length (stops exRouteX)" "(1::nat) < length (stops exRouteY)"
    "(0::nat) < length (stops exRouteX)"
    by (simp_all add: exRouteX_def exRouteY_def mkRoute_def)
  have s: "stops exRouteY ! 1 = inCluster ''X'' (mkShipment ''D'' Ambient 5)"
    "stops exRouteX ! 1 = inCluster ''Y'' (mkShipment ''B'' Ambient 5)"
    by (simp_all add: exRouteX_def exRouteY_def mkRoute_def)
  have k: "jsLess (jsAdd (calculateRouteScore (swapped exRouteX 1 (stops exRouteY ! 1)) exCtx)
                         (calculateRouteScore (swapped exRouteY 1 (stops exRouteX ! 1)) exCtx))
                  (jsAdd (calculateRouteScore exRouteX exCtx) (calculateRouteScore exRouteY exCtx))
           \<and> isRouteValid (swapped exRouteX 1 (stops exRouteY ! 1)) exCtx
           \<and> isRouteValid (swapped exRouteY 1 (stops exRouteX ! 1)) exCtx"
    by code_simp
  have n: "\<not> jsLess (jsAdd (calculateRouteScore (swapped exRouteX 0 (stops exRouteY ! 1)) exCtx)
                         (calculateRouteScore (swapped exRouteY 1 (stops exRouteX ! 0)) exCtx))
                  (jsAdd (calculateRouteScore exRouteX exCtx) (calculateRouteScore exRouteY exCtx))"
    by code_simp
  from C9_swap_atomic [OF l(1,2), of exCtx] k
  have a: "trySwap exCtx exRouteX exRouteY 1 1
           = (swapped exRouteX 1 (stops exRouteY ! 1), swapped exRouteY 1 (stops exRouteX ! 1), True)"
    by simp
  from C9_swap_atomic [OF l(3,2), of exCtx] n
  have b: "trySwap exCtx exRouteX exRouteY 0 1 = (exRouteX, exRouteY, False)"
    by simp
  from a b show ?thesis by (simp only: s)
qed




text \<open>
  C1, the code at the failing input: with at most two stops per route the planning loop
  commits nothing; the pull-forward pass then builds the route HB_PF_1 from A and B in the
  local route list, after the routes were written, so the sheet stays empty; the final plan
  holds the overspill route of C only.
\<close>

theorem C1_pull_forward_routes_dropped:
  "map_option (\<lambda>st. (map (\<lambda>r. (routeId r, map store (stops r))) (routes st),
                      map store (unassigned st), rowStores (planSheet st)))
     (runPlanningLoop 20
        [mkShipment ''A'' Ambient 8, mkShipment ''B'' Ambient 8, mkShipment ''C'' Ambient 1]
        [exCarrier] exCtxTwoStops [] 1)
     = Some ([(''HB_PF_1'', [''A'', ''B''])], [''C''], [])
   \<and> map_option rowStores
       (generatePlan 20
          [mkShipment ''A'' Ambient 8, mkShipment ''B'' Ambient 8, mkShipment ''C'' Ambient 1]
          [exCarrier] exCtxTwoStops)
     = Some [(''Overspill_1'', [(''C'', Ambient)])]"
  by code_simp

end
